theory Spec2Isabelle
  imports Main
begin

section \<open>Python strings\<close>

text \<open>
  A Python \<open>str\<close> is modelled as a \<open>string\<close>; a \<open>char\<close> stands for the code point of
  the same number, so the model covers the code points U+0000 to U+00FF. The
  classifications below are Python's on that range: \<open>str.isspace\<close> (which both
  \<open>str.strip()\<close> and the regular expression class \<open>\s\<close> use) and the decimal digits
  (the class \<open>\d\<close>).
\<close>

definition isspace :: "char \<Rightarrow> bool" where
  "isspace c =
     (let n = (of_char c :: nat)
      in (9 \<le> n \<and> n \<le> 13) \<or> (28 \<le> n \<and> n \<le> 32) \<or> n = 133 \<or> n = 160)"

definition isdecimal :: "char \<Rightarrow> bool" where
  "isdecimal c = (let n = (of_char c :: nat) in 48 \<le> n \<and> n \<le> 57)"

definition digit_val :: "char \<Rightarrow> int" where
  "digit_val c = int (of_char c) - 48"

text \<open>\<open>s.startswith(p)\<close>\<close>

fun startswith :: "string \<Rightarrow> string \<Rightarrow> bool" where
  "startswith s [] = True"
| "startswith [] (p # ps) = False"
| "startswith (c # cs) (p # ps) = (c = p \<and> startswith cs ps)"

text \<open>\<open>sub in s\<close>\<close>

fun contains :: "string \<Rightarrow> string \<Rightarrow> bool" where
  "contains sub [] = (sub = [])"
| "contains sub (c # cs) = (startswith (c # cs) sub \<or> contains sub cs)"

text \<open>\<open>s.split('\n')\<close>: the result is never empty, and the empty string gives \<open>['']\<close>.\<close>

fun split_nl :: "string \<Rightarrow> string list" where
  "split_nl [] = [[]]"
| "split_nl (c # cs) =
     (if c = CHR 0x0A then [] # split_nl cs
      else (case split_nl cs of
              l # ls \<Rightarrow> (c # l) # ls
            | [] \<Rightarrow> [[c]]))"

text \<open>\<open>s.strip()\<close> and \<open>s.lstrip(chars)\<close>\<close>

definition strip :: "string \<Rightarrow> string" where
  "strip s = rev (dropWhile isspace (rev (dropWhile isspace s)))"

definition lstrip :: "string \<Rightarrow> string \<Rightarrow> string" where
  "lstrip chars s = dropWhile (\<lambda>c. c \<in> set chars) s"

section \<open>Python exceptions and integer conversion\<close>

datatype exn = ValueError | AttributeError | KeyError | TypeError | IndexError | OverflowError

text \<open>
  \<open>int(s)\<close> on a run of decimal digits, the only kind of argument the parser passes.
  The parameter \<open>lim\<close> is the interpreter's limit on the number of digits of an
  integer conversion (\<open>sys.get_int_max_str_digits()\<close>: 4300 by default from
  Python 3.11 on, and 0 when there is no limit, as in the earlier versions); beyond it
  \<open>int\<close> and \<open>str\<close> raise \<open>ValueError\<close>. Python's \<open>int\<close> also reads signs, blanks
  and underscores, which a \<open>\d+\<close> group never holds; here they are a \<open>ValueError\<close>.
\<close>

definition py_int :: "nat \<Rightarrow> string \<Rightarrow> exn + int" where
  "py_int lim ds =
     (if ds \<noteq> [] \<and> list_all isdecimal ds then
        (if 0 < lim \<and> lim < length ds then Inl ValueError
         else Inr (foldl (\<lambda>a c. 10 * a + digit_val c) 0 ds))
      else Inl ValueError)"

fun digits_of :: "nat \<Rightarrow> string" where
  "digits_of n =
     (if n < 10 then [char_of (48 + n)]
      else digits_of (n div 10) @ [char_of (48 + n mod 10)])"

declare digits_of.simps [simp del]

text \<open>The value of \<open>atsScore\<close>: the string \<open>"N/A"\<close> or an integer.\<close>

datatype ats_score = StrVal string | IntVal int

text \<open>\<open>str(score)\<close>\<close>

definition py_str :: "nat \<Rightarrow> ats_score \<Rightarrow> exn + string" where
  "py_str lim v =
     (case v of
        StrVal s \<Rightarrow> Inr s
      | IntVal n \<Rightarrow>
          (let ds = digits_of (nat \<bar>n\<bar>)
           in if 0 < lim \<and> lim < length ds then Inl ValueError
              else Inr (if n < 0 then CHR ''-'' # ds else ds)))"

section \<open>The response parser\<close>

text \<open>
  \<open>re.search(r"ATS Score:\s*(\d+)", line)\<close>, giving group 1 of the leftmost match.
  \<open>score_at s\<close> is the match that starts at the head of \<open>s\<close>: the label, then the
  longest run of blanks, then the longest run of digits, which must not be empty. The
  two classes are disjoint, so giving back blanks or digits never turns a failure into
  a match, and the greedy match is the one the engine reports.
\<close>

definition score_at :: "string \<Rightarrow> string option" where
  "score_at s =
     (if startswith s ''ATS Score:'' then
        (let ds = takeWhile isdecimal (dropWhile isspace (drop 10 s))
         in if ds = [] then None else Some ds)
      else None)"

fun re_search_score :: "string \<Rightarrow> string option" where
  "re_search_score [] = None"
| "re_search_score (c # cs) =
     (case score_at (c # cs) of
        Some ds \<Rightarrow> Some ds
      | None \<Rightarrow> re_search_score cs)"

record analysis_result =
  atsScore :: ats_score
  suggestions :: "string list"

text \<open>
  One turn of the loop over the lines (source lines 132 to 144), on the pair of the
  variables \<open>score\<close> and \<open>suggestions\<close>.
\<close>

definition parse_line :: "nat \<Rightarrow> string \<Rightarrow> ats_score \<times> string list \<Rightarrow> exn + ats_score \<times> string list" where
  "parse_line lim line st =
     (case st of (score, suggs) \<Rightarrow>
       (case re_search_score line of
          Some g \<Rightarrow>
            (case py_int lim g of
               Inr n \<Rightarrow> Inr (IntVal n, suggs)
             | Inl ValueError \<Rightarrow> Inr (score, suggs)
             | Inl e \<Rightarrow> Inl e)
        | None \<Rightarrow>
            if startswith (strip line) ''-'' then
              Inr (score, suggs @ [strip (lstrip ''- '' (strip line))])
            else if contains ''Suggestions:'' line then Inr (score, suggs)
            else if strip line \<noteq> [] then
              (if suggs = [] \<and> \<not> contains ''ATS Score:'' line
               then Inr (score, suggs @ [strip line])
               else Inr (score, suggs))
            else Inr (score, suggs)))"

fun parse_lines :: "nat \<Rightarrow> string list \<Rightarrow> ats_score \<times> string list \<Rightarrow> exn + ats_score \<times> string list" where
  "parse_lines lim [] st = Inr st"
| "parse_lines lim (line # rest) st =
     (case parse_line lim line st of
        Inl e \<Rightarrow> Inl e
      | Inr st' \<Rightarrow> parse_lines lim rest st')"

definition no_suggestions_filler :: string where
  "no_suggestions_filler =
     ''No specific suggestions were provided, but ensure your resume closely matches the job description keywords.''"

definition could_not_parse_filler :: string where
  "could_not_parse_filler =
     ''Could not parse response or no specific suggestions provided. Ensure the job type is clear.''"

text \<open>Source lines 147 to 152; \<open>str(score)\<close> is evaluated only when the list is empty.\<close>

definition finish :: "nat \<Rightarrow> ats_score \<times> string list \<Rightarrow> exn + analysis_result" where
  "finish lim st =
     (case st of (score, suggs) \<Rightarrow>
        if suggs = [] then
          (case py_str lim score of
             Inl e \<Rightarrow> Inl e
           | Inr s \<Rightarrow>
               if \<not> contains ''N/A'' s
               then Inr \<lparr>atsScore = score, suggestions = [no_suggestions_filler]\<rparr>
               else Inr \<lparr>atsScore = score, suggestions = [could_not_parse_filler]\<rparr>)
        else Inr \<lparr>atsScore = score, suggestions = suggs\<rparr>)"

text \<open>
  \<open>parse_ats_response\<close>: the argument is \<open>None\<close> or a string, and \<open>not gemini_output\<close>
  holds of \<open>None\<close> and of the empty string.
\<close>

definition parse_ats_response :: "nat \<Rightarrow> string option \<Rightarrow> exn + analysis_result" where
  "parse_ats_response lim gemini_output =
     (case gemini_output of
        None \<Rightarrow>
          Inr \<lparr>atsScore = StrVal ''N/A'', suggestions = [''Could not get a response from AI.'']\<rparr>
      | Some text \<Rightarrow>
          if text = [] then
            Inr \<lparr>atsScore = StrVal ''N/A'', suggestions = [''Could not get a response from AI.'']\<rparr>
          else
            (case parse_lines lim (split_nl text) (StrVal ''N/A'', []) of
               Inl e \<Rightarrow> Inl e
             | Inr st \<Rightarrow> finish lim st))"

section \<open>The generation client\<close>

text \<open>
  The decoded body of a response (\<open>response.json()\<close>). An object is the dictionary
  Python builds from it, as a list of its entries with distinct keys. A number is
  represented by an integer: the code only tests a number for being zero.
\<close>

datatype json =
    JNull
  | JBool bool
  | JNum int
  | JStr string
  | JArr "json list"
  | JObj "(string \<times> json) list"

text \<open>The truth value Python gives a decoded value in a condition.\<close>

fun truthy :: "json \<Rightarrow> bool" where
  "truthy JNull = False"
| "truthy (JBool b) = b"
| "truthy (JNum n) = (n \<noteq> 0)"
| "truthy (JStr s) = (s \<noteq> [])"
| "truthy (JArr xs) = (xs \<noteq> [])"
| "truthy (JObj kvs) = (kvs \<noteq> [])"

text \<open>\<open>x.get(key)\<close>: only a dictionary has the method.\<close>

fun py_get :: "json \<Rightarrow> string \<Rightarrow> exn + json" where
  "py_get (JObj kvs) k = (case map_of kvs k of Some v \<Rightarrow> Inr v | None \<Rightarrow> Inr JNull)"
| "py_get _ k = Inl AttributeError"

text \<open>\<open>x[key]\<close> for a string key.\<close>

fun py_item :: "json \<Rightarrow> string \<Rightarrow> exn + json" where
  "py_item (JObj kvs) k = (case map_of kvs k of Some v \<Rightarrow> Inr v | None \<Rightarrow> Inl KeyError)"
| "py_item _ k = Inl TypeError"

text \<open>
  \<open>x[0]\<close>. The keys of a decoded object are strings, so \<open>0\<close> is never one of them.
\<close>

fun py_first :: "json \<Rightarrow> exn + json" where
  "py_first (JArr xs) = (case xs of [] \<Rightarrow> Inl IndexError | x # _ \<Rightarrow> Inr x)"
| "py_first (JStr s) = (case s of [] \<Rightarrow> Inl IndexError | c # _ \<Rightarrow> Inr (JStr [c]))"
| "py_first (JObj kvs) = Inl KeyError"
| "py_first _ = Inl TypeError"

definition bindE :: "exn + 'a \<Rightarrow> ('a \<Rightarrow> exn + 'b) \<Rightarrow> exn + 'b" where
  "bindE m f = (case m of Inl e \<Rightarrow> Inl e | Inr x \<Rightarrow> f x)"

text \<open>
  The three paths that lines 102 to 104 evaluate again and again:
  \<open>result["candidates"][0]\<close>, then \<open>["content"]\<close> of it, then \<open>["parts"][0]\<close> of that.
\<close>

definition candidate0 :: "json \<Rightarrow> exn + json" where
  "candidate0 result = bindE (py_item result ''candidates'') py_first"

definition content0 :: "json \<Rightarrow> exn + json" where
  "content0 result = bindE (candidate0 result) (\<lambda>c. py_item c ''content'')"

definition part0 :: "json \<Rightarrow> exn + json" where
  "part0 result = bindE (content0 result) (\<lambda>c. bindE (py_item c ''parts'') py_first)"

text \<open>
  Lines 102 to 107: the chain of \<open>and\<close> stops at the first false operand and the
  function returns \<open>None\<close>; when all five hold it returns the text. An exception of a
  method call or a subscript is not a \<open>RequestException\<close> and leaves the function.
\<close>

definition extract_text :: "json \<Rightarrow> exn + json option" where
  "extract_text result =
     (if truthy result then
        bindE (py_get result ''candidates'') (\<lambda>cands.
          if truthy cands then
            bindE (candidate0 result) (\<lambda>c0.
            bindE (py_get c0 ''content'') (\<lambda>content.
              if truthy content then
                bindE (content0 result) (\<lambda>ct.
                bindE (py_get ct ''parts'') (\<lambda>parts.
                  if truthy parts then
                    bindE (part0 result) (\<lambda>p0.
                    bindE (py_get p0 ''text'') (\<lambda>text.
                      if truthy text then
                        bindE (part0 result) (\<lambda>p.
                        bindE (py_item p ''text'') (\<lambda>t. Inr (Some t)))
                      else Inr None))
                  else Inr None))
              else Inr None))
          else Inr None)
      else Inr None)"

text \<open>
  One attempt of lines 98 to 100 either raises a \<open>RequestException\<close> (from
  \<open>requests.post\<close>, from \<open>raise_for_status\<close>, or from \<open>response.json()\<close>) or gives the
  decoded body. The transport \<open>tr prompt k\<close> is the outcome of the call number \<open>k\<close>,
  counted from 0.
\<close>

datatype attempt = RequestException | Response json

text \<open>
  What a function does to the world is the log of its events, in the order they happen:
  a call of the transport with a prompt (\<open>requests.post\<close>) and a sleep of some seconds
  (\<open>time.sleep\<close>). \<open>calls\<close> counts the calls of a log and \<open>sleeps\<close> lists its delays.
\<close>

datatype event = Call string | Sleep int

fun calls :: "event list \<Rightarrow> nat" where
  "calls [] = 0"
| "calls (Call p # w) = Suc (calls w)"
| "calls (Sleep d # w) = calls w"

fun sleeps :: "event list \<Rightarrow> int list" where
  "sleeps [] = []"
| "sleeps (Call p # w) = sleeps w"
| "sleeps (Sleep d # w) = d # sleeps w"

text \<open>
  \<open>time.sleep(secs)\<close> for an integer. The interpreter first converts the delay to a
  64-bit count of nanoseconds and raises \<open>OverflowError\<close> when it does not fit: the
  whole seconds that fit are those from \<open>- sleep_max\<close> to \<open>sleep_max\<close>. Then it raises
  \<open>ValueError\<close> on a negative delay. Neither is a \<open>RequestException\<close>.
\<close>

definition sleep_max :: int where
  "sleep_max = 9223372036"

definition py_sleep :: "int \<Rightarrow> event list \<Rightarrow> (exn + unit) \<times> event list" where
  "py_sleep secs w =
     (if secs < - sleep_max \<or> sleep_max < secs then (Inl OverflowError, w)
      else if secs < 0 then (Inl ValueError, w)
      else (Inr (), w @ [Sleep secs]))"

text \<open>The loop \<open>for i in range(max_retries)\<close> on the remaining values of \<open>i\<close>.\<close>

fun retry_loop ::
  "(string \<Rightarrow> nat \<Rightarrow> attempt) \<Rightarrow> string \<Rightarrow> int \<Rightarrow> int \<Rightarrow> nat list \<Rightarrow> event list
     \<Rightarrow> (exn + json option) \<times> event list" where
  "retry_loop tr prompt max_retries initial_delay [] w = (Inr None, w)"
| "retry_loop tr prompt max_retries initial_delay (i # rest) w =
     (let w1 = w @ [Call prompt]
      in case tr prompt (calls w) of
           Response result \<Rightarrow> (extract_text result, w1)
         | RequestException \<Rightarrow>
             if int i < max_retries - 1 then
               (case py_sleep (initial_delay * 2 ^ i) w1 of
                  (Inl e, w2) \<Rightarrow> (Inl e, w2)
                | (Inr u, w2) \<Rightarrow> retry_loop tr prompt max_retries initial_delay rest w2)
             else (Inr None, w1))"

definition call_gemini_api_with_retry ::
  "(string \<Rightarrow> nat \<Rightarrow> attempt) \<Rightarrow> string \<Rightarrow> int \<Rightarrow> int \<Rightarrow> (exn + json option) \<times> event list" where
  "call_gemini_api_with_retry tr prompt max_retries initial_delay =
     retry_loop tr prompt max_retries initial_delay [0..<nat max_retries] []"

text \<open>
  The parser in the same style, for what it does to the world: lines 117 to 152 call
  neither the transport nor \<open>time.sleep\<close> nor the logger, so each turn of the loop and
  each return hands the log on as it got it.
\<close>

fun parse_lines_io ::
  "nat \<Rightarrow> string list \<Rightarrow> ats_score \<times> string list \<Rightarrow> event list
     \<Rightarrow> (exn + ats_score \<times> string list) \<times> event list" where
  "parse_lines_io lim [] st w = (Inr st, w)"
| "parse_lines_io lim (line # rest) st w =
     (case parse_line lim line st of
        Inl e \<Rightarrow> (Inl e, w)
      | Inr st' \<Rightarrow> parse_lines_io lim rest st' w)"

definition parse_ats_response_io ::
  "nat \<Rightarrow> string option \<Rightarrow> event list \<Rightarrow> (exn + analysis_result) \<times> event list" where
  "parse_ats_response_io lim gemini_output w =
     (case gemini_output of
        None \<Rightarrow>
          (Inr \<lparr>atsScore = StrVal ''N/A'', suggestions = [''Could not get a response from AI.'']\<rparr>, w)
      | Some text \<Rightarrow>
          if text = [] then
            (Inr \<lparr>atsScore = StrVal ''N/A'', suggestions = [''Could not get a response from AI.'']\<rparr>, w)
          else
            (case parse_lines_io lim (split_nl text) (StrVal ''N/A'', []) w of
               (Inl e, w') \<Rightarrow> (Inl e, w')
             | (Inr st, w') \<Rightarrow> (finish lim st, w')))"

section \<open>The prompt\<close>

text \<open>
  The f-string of lines 181 to 196 is three literal segments around the two
  placeholders \<open>{job_type}\<close> and \<open>{resume_text}\<close>, both of them strings.
\<close>

definition prompt_before_job_type :: string where
  "prompt_before_job_type =
     [CHR 0x0A] @
     ''        Analyze the following resume text against the job type '' @ [CHR 0x22]"

definition prompt_before_resume_text :: string where
  "prompt_before_resume_text =
     [CHR 0x22] @
     '' to determine an ATS (Applicant Tracking System) compatibility score out of 100.'' @ [CHR 0x0A] @
     ''        Provide actionable suggestions to improve the resume's ATS score for this specific job type.'' @ [CHR 0x0A] @
     ''        Focus on keywords, formatting that might hinder ATS, and overall relevance.'' @ [CHR 0x0A] @
     ''        Structure your response clearly with the ATS Score on one line, followed by a '' @ [CHR 0x22] @
     ''Suggestions:'' @ [CHR 0x22] @ '' heading, and then a bulleted list of suggestions.'' @ [CHR 0x0A] @
     ''        Always include '' @ [CHR 0x22] @ ''/100'' @ [CHR 0x22] @ '' after the score.'' @ [CHR 0x0A] @
     [CHR 0x0A] @
     ''        Resume Text:'' @ [CHR 0x0A] @
     ''        ''"

definition prompt_after_resume_text :: string where
  "prompt_after_resume_text =
     [CHR 0x0A] @
     [CHR 0x0A] @
     ''        Expected Output Format:'' @ [CHR 0x0A] @
     ''        ATS Score: [SCORE]/100'' @ [CHR 0x0A] @
     ''        Suggestions:'' @ [CHR 0x0A] @
     ''        - Suggestion 1'' @ [CHR 0x0A] @
     ''        - Suggestion 2'' @ [CHR 0x0A] @
     ''        ''"

definition ats_prompt :: "string \<Rightarrow> string \<Rightarrow> string" where
  "ats_prompt job_type resume_text =
     prompt_before_job_type @ job_type @ prompt_before_resume_text @ resume_text @
     prompt_after_resume_text"

section \<open>Predicates for the proofs\<close>

text \<open>
  What the loop keeps true of the variable \<open>score\<close>: it is the string \<open>"N/A"\<close>, or an
  integer that is not negative and that \<open>str\<close> can print within the digit limit.
\<close>

definition score_ok :: "nat \<Rightarrow> ats_score \<Rightarrow> bool" where
  "score_ok lim v =
     (case v of
        StrVal s \<Rightarrow> s = ''N/A''
      | IntVal n \<Rightarrow> 0 \<le> n \<and> (lim = 0 \<or> length (digits_of (nat n)) \<le> lim))"

text \<open>
  The integer that a line assigns to \<open>score\<close> (lines 132 to 135), if it assigns one.
\<close>

definition line_score :: "nat \<Rightarrow> string \<Rightarrow> int option" where
  "line_score lim line =
     (case re_search_score line of
        None \<Rightarrow> None
      | Some g \<Rightarrow> (case py_int lim g of Inr n \<Rightarrow> Some n | Inl e \<Rightarrow> None))"

text \<open>
  The lines that take the branch of line 138, and the suggestion line 139 makes of one.
\<close>

definition is_bullet :: "string \<Rightarrow> bool" where
  "is_bullet line = (re_search_score line = None \<and> startswith (strip line) ''-'')"

definition bullet_text :: "string \<Rightarrow> string" where
  "bullet_text line = strip (lstrip ''- '' (strip line))"

text \<open>
  The lines that line 144 appends when no suggestion has been collected yet: no score
  match, no bullet, no heading, not blank, and no score label (lines 133 to 143).
\<close>

definition is_fallback :: "string \<Rightarrow> bool" where
  "is_fallback line =
     (re_search_score line = None \<and> \<not> startswith (strip line) ''-'' \<and>
      \<not> contains ''Suggestions:'' line \<and> strip line \<noteq> [] \<and>
      \<not> contains ''ATS Score:'' line)"


section \<open>Strings and digits\<close>

lemma startswith_iff: "startswith s p \<longleftrightarrow> (\<exists>r. s = p @ r)"
  by (induction s p rule: startswith.induct) auto

lemma contains_iff: "contains sub s \<longleftrightarrow> (\<exists>a b. s = a @ sub @ b)"
proof (induction s)
  case Nil
  show ?case by auto
next
  case (Cons c cs)
  show ?case
  proof
    assume "contains sub (c # cs)"
    then consider "startswith (c # cs) sub" | "contains sub cs" by auto
    then show "\<exists>a b. c # cs = a @ sub @ b"
    proof cases
      case 1
      then obtain r where "c # cs = sub @ r" by (auto simp: startswith_iff)
      then have "c # cs = [] @ sub @ r" by simp
      then show ?thesis by blast
    next
      case 2
      then obtain a b where "cs = a @ sub @ b" using Cons.IH by blast
      then have "c # cs = (c # a) @ sub @ b" by simp
      then show ?thesis by blast
    qed
  next
    assume "\<exists>a b. c # cs = a @ sub @ b"
    then obtain a b where ab: "c # cs = a @ sub @ b" by blast
    show "contains sub (c # cs)"
    proof (cases a)
      case Nil
      with ab have "startswith (c # cs) sub" by (auto simp: startswith_iff)
      then show ?thesis by simp
    next
      case (Cons x a')
      with ab have "cs = a' @ sub @ b" by simp
      then have "contains sub cs" using Cons.IH by blast
      then show ?thesis by simp
    qed
  qed
qed

lemma contains_hd: "contains (x # sub) s \<Longrightarrow> x \<in> set s"
  by (auto simp: contains_iff)

lemma split_nl_nonempty: "split_nl s \<noteq> []"
  by (induction s) (auto split: list.splits)

lemma isdecimal_char_of: "d < 10 \<Longrightarrow> isdecimal (char_of (48 + (d::nat)))"
  by (simp add: isdecimal_def Let_def)

lemma digits_of_decimal: "list_all isdecimal (digits_of n)"
proof (induction n rule: digits_of.induct)
  case (1 n)
  show ?case
  proof (cases "n < 10")
    case True
    then show ?thesis by (subst digits_of.simps) (simp add: isdecimal_char_of)
  next
    case False
    with 1 have "list_all isdecimal (digits_of (n div 10))" by simp
    moreover have "isdecimal (char_of (48 + n mod 10))" by (rule isdecimal_char_of) simp
    ultimately show ?thesis using False by (subst digits_of.simps) simp
  qed
qed

lemma digits_of_length: "0 < k \<Longrightarrow> n < 10 ^ k \<Longrightarrow> length (digits_of n) \<le> k"
proof (induction n arbitrary: k rule: digits_of.induct)
  case (1 n)
  show ?case
  proof (cases "n < 10")
    case True
    with 1(2) show ?thesis by (subst digits_of.simps) simp
  next
    case False
    obtain j where k: "k = Suc j" using 1(2) by (cases k) auto
    have "0 < j" using False 1(3) k by (cases j) auto
    moreover have "n div 10 < 10 ^ j" using 1(3) k by (simp add: less_mult_imp_div_less mult.commute)
    ultimately have "length (digits_of (n div 10)) \<le> j" using 1(1) False by simp
    then show ?thesis using False k by (subst digits_of.simps) simp
  qed
qed

lemma digit_val_bounds: "isdecimal c \<Longrightarrow> 0 \<le> digit_val c \<and> digit_val c \<le> 9"
  by (auto simp: isdecimal_def digit_val_def Let_def)

lemma decimal_value_bounds:
  "list_all isdecimal ds \<Longrightarrow>
     0 \<le> foldl (\<lambda>a c. 10 * a + digit_val c) 0 ds \<and>
     foldl (\<lambda>a c. 10 * a + digit_val c) 0 ds < 10 ^ length ds"
proof (induction ds rule: rev_induct)
  case Nil
  show ?case by simp
next
  case (snoc x xs)
  then have "0 \<le> digit_val x \<and> digit_val x \<le> 9" by (simp add: digit_val_bounds)
  moreover from snoc have "0 \<le> foldl (\<lambda>a c. 10 * a + digit_val c) 0 xs \<and>
     foldl (\<lambda>a c. 10 * a + digit_val c) 0 xs < 10 ^ length xs" by simp
  ultimately show ?case by simp
qed

section \<open>The line splitter and the score pattern\<close>

text \<open>
  The lines hold no newline and there is one more line than there are newlines. A match
  of the score pattern is the label, a run of blanks and the whole run of digits that
  follows, somewhere in the line.
\<close>

lemma split_nl_no_newline: "l \<in> set (split_nl s) \<Longrightarrow> CHR 0x0A \<notin> set l"
proof (induction s arbitrary: l)
  case Nil
  then show ?case by simp
next
  case (Cons c cs)
  then show ?case
    by (cases "split_nl cs") (auto split: if_splits)
qed

lemma split_nl_length: "length (split_nl s) = Suc (count_list s (CHR 0x0A))"
  by (induction s) (auto split: list.splits)

lemma score_at_shape:
  assumes "score_at s = Some g"
  shows "\<exists>ws rest. s = ''ATS Score:'' @ ws @ g @ rest \<and> list_all isspace ws \<and>
           g \<noteq> [] \<and> list_all isdecimal g \<and> (rest = [] \<or> \<not> isdecimal (hd rest))"
proof -
  from assms have sw: "startswith s ''ATS Score:''"
    and g: "g = takeWhile isdecimal (dropWhile isspace (drop 10 s))" "g \<noteq> []"
    by (auto simp: score_at_def Let_def split: if_splits)
  from sw obtain r where r: "s = ''ATS Score:'' @ r" unfolding startswith_iff by blast
  then have dr: "drop 10 s = r" by simp
  let ?ws = "takeWhile isspace r"
  let ?rest = "dropWhile isdecimal (dropWhile isspace r)"
  have "r = ?ws @ dropWhile isspace r" by simp
  moreover have "dropWhile isspace r = g @ ?rest" using g(1) dr by simp
  ultimately have "s = ''ATS Score:'' @ ?ws @ g @ ?rest" using r by simp
  moreover have "list_all isspace ?ws" by (simp add: list_all_iff) (metis set_takeWhileD)
  moreover have "list_all isdecimal g" using g(1) by (simp add: list_all_iff) (metis set_takeWhileD)
  moreover have "?rest = [] \<or> \<not> isdecimal (hd ?rest)" using hd_dropWhile[of isdecimal] by blast
  ultimately show ?thesis using g(2) by blast
qed

lemma re_search_score_shape:
  "re_search_score s = Some g \<Longrightarrow>
     \<exists>a ws rest. s = a @ ''ATS Score:'' @ ws @ g @ rest \<and> list_all isspace ws \<and>
        g \<noteq> [] \<and> list_all isdecimal g \<and> (rest = [] \<or> \<not> isdecimal (hd rest))"
proof (induction s)
  case Nil
  then show ?case by simp
next
  case (Cons c cs)
  show ?case
  proof (cases "score_at (c # cs)")
    case (Some g')
    with Cons.prems have "score_at (c # cs) = Some g" by simp
    from score_at_shape[OF this] obtain ws rest where
      "c # cs = [] @ ''ATS Score:'' @ ws @ g @ rest" "list_all isspace ws"
      "g \<noteq> []" "list_all isdecimal g" "rest = [] \<or> \<not> isdecimal (hd rest)" by auto
    then show ?thesis by blast
  next
    case None
    with Cons.prems have "re_search_score cs = Some g" by simp
    from Cons.IH[OF this] obtain a ws rest where
      x: "cs = a @ ''ATS Score:'' @ ws @ g @ rest" "list_all isspace ws"
      "g \<noteq> []" "list_all isdecimal g" "rest = [] \<or> \<not> isdecimal (hd rest)" by blast
    from x(1) have "c # cs = (c # a) @ ''ATS Score:'' @ ws @ g @ rest" by simp
    with x(2-) show ?thesis by blast
  qed
qed

section \<open>The parser never raises\<close>

lemma score_at_digits: "score_at s = Some g \<Longrightarrow> g \<noteq> [] \<and> list_all isdecimal g"
  by (auto simp: score_at_def Let_def list_all_iff split: if_splits dest: set_takeWhileD)

lemma re_search_score_digits: "re_search_score s = Some g \<Longrightarrow> g \<noteq> [] \<and> list_all isdecimal g"
  by (induction s) (auto split: option.splits dest: score_at_digits)

lemma py_int_Inl: "py_int lim g = Inl e \<Longrightarrow> e = ValueError"
  by (auto simp: py_int_def split: if_splits)

lemma py_int_Inr: 
  assumes "py_int lim g = Inr n"
  shows "score_ok lim (IntVal n)"
proof -
  from assms have g: "g \<noteq> []" "list_all isdecimal g" and len: "lim = 0 \<or> length g \<le> lim"
    and n: "n = foldl (\<lambda>a c. 10 * a + digit_val c) 0 g"
    by (auto simp: py_int_def split: if_splits)
  from decimal_value_bounds[OF g(2)] n have b: "0 \<le> n" "n < 10 ^ length g" by auto
  then have "nat n < 10 ^ length g" by (simp add: nat_less_iff)
  with g(1) have "length (digits_of (nat n)) \<le> length g" by (intro digits_of_length) auto
  with len b(1) show ?thesis by (auto simp: score_ok_def)
qed

lemma parse_line_ok:
  assumes "score_ok lim (fst st)"
  shows "\<exists>st'. parse_line lim l st = Inr st' \<and> score_ok lim (fst st')"
proof (cases "re_search_score l")
  case None
  with assms show ?thesis by (auto simp: parse_line_def split: prod.splits)
next
  case (Some g)
  show ?thesis
  proof (cases "py_int lim g")
    case (Inl e)
    then have "e = ValueError" by (rule py_int_Inl)
    with Inl Some assms show ?thesis by (auto simp: parse_line_def split: prod.splits)
  next
    case (Inr n)
    then have "score_ok lim (IntVal n)" by (rule py_int_Inr)
    with Inr Some show ?thesis by (auto simp: parse_line_def split: prod.splits)
  qed
qed

lemma parse_lines_ok:
  "score_ok lim (fst st) \<Longrightarrow> \<exists>st'. parse_lines lim ls st = Inr st' \<and> score_ok lim (fst st')"
proof (induction ls arbitrary: st)
  case Nil
  then show ?case by simp
next
  case (Cons l ls)
  from parse_line_ok[OF Cons.prems] obtain st1 where
    st1: "parse_line lim l st = Inr st1" "score_ok lim (fst st1)" by blast
  from Cons.IH[OF st1(2)] st1(1) show ?case by simp
qed

lemma py_str_IntVal_no_NA:
  "py_str lim (IntVal n) = Inr s \<Longrightarrow> \<not> contains ''N/A'' s"
proof
  assume a: "py_str lim (IntVal n) = Inr s" and c: "contains ''N/A'' s"
  from c have "CHR ''N'' \<in> set s" by (rule contains_hd)
  moreover from a have "set s \<subseteq> insert CHR ''-'' (set (digits_of (nat \<bar>n\<bar>)))"
    by (auto simp: py_str_def Let_def split: if_splits)
  ultimately have "CHR ''N'' \<in> set (digits_of (nat \<bar>n\<bar>))" by auto
  with digits_of_decimal[of "nat \<bar>n\<bar>"] have "isdecimal CHR ''N''" by (simp add: list_all_iff)
  then show False by (simp add: isdecimal_def)
qed

lemma py_str_ok:
  "score_ok lim v \<Longrightarrow> \<exists>s. py_str lim v = Inr s \<and> (contains ''N/A'' s \<longleftrightarrow> v = StrVal ''N/A'')"
proof (cases v)
  case (StrVal x)
  assume "score_ok lim v"
  with StrVal show ?thesis by (simp add: score_ok_def py_str_def)
next
  case (IntVal n)
  assume "score_ok lim v"
  with IntVal have "\<exists>s. py_str lim v = Inr s" by (auto simp: score_ok_def py_str_def Let_def)
  then obtain s where s: "py_str lim v = Inr s" by blast
  with IntVal have "\<not> contains ''N/A'' s" by (auto dest: py_str_IntVal_no_NA)
  with s IntVal show ?thesis by simp
qed

lemma finish_ok:
  assumes "score_ok lim (fst st)"
  shows "\<exists>r. finish lim st = Inr r \<and> atsScore r = fst st \<and> suggestions r \<noteq> [] \<and>
             (snd st \<noteq> [] \<longrightarrow> suggestions r = snd st) \<and>
             (snd st = [] \<longrightarrow> suggestions r =
                 [if fst st = StrVal ''N/A'' then could_not_parse_filler else no_suggestions_filler])"
proof -
  from py_str_ok[OF assms] obtain s where
    s: "py_str lim (fst st) = Inr s" "contains ''N/A'' s \<longleftrightarrow> fst st = StrVal ''N/A''" by blast
  then show ?thesis by (cases st) (auto simp: finish_def)
qed

lemma score_ok_init: "score_ok lim (StrVal ''N/A'')"
  by (simp add: score_ok_def)

lemma parse_lines_init_ok:
  "\<exists>st. parse_lines lim ls (StrVal ''N/A'', []) = Inr st \<and> score_ok lim (fst st)"
  using parse_lines_ok[of lim "(StrVal ''N/A'', [])" ls] by (simp add: score_ok_init)

lemma parse_some_ok:
  assumes "reply \<noteq> []"
  shows "\<exists>st r. parse_lines lim (split_nl reply) (StrVal ''N/A'', []) = Inr st \<and> score_ok lim (fst st) \<and>
           parse_ats_response lim (Some reply) = Inr r \<and> finish lim st = Inr r"
proof -
  obtain st where st: "parse_lines lim (split_nl reply) (StrVal ''N/A'', []) = Inr st" "score_ok lim (fst st)"
    using parse_lines_init_ok by blast
  obtain r where r: "finish lim st = Inr r" using finish_ok[OF st(2)] by blast
  with st assms show ?thesis by (auto simp: parse_ats_response_def)
qed

text \<open>
  Claim C3: on the unavailable input, which is \<open>None\<close> or the empty string (the only
  string Python takes for false), the parser returns the fixed result with the score
  \<open>"N/A"\<close> and the one suggestion \<open>"Could not get a response from AI."\<close>; it returns
  this value and raises nothing.
\<close>

theorem parse_unavailable:
  "parse_ats_response lim None =
     Inr \<lparr>atsScore = StrVal ''N/A'', suggestions = [''Could not get a response from AI.'']\<rparr> \<and>
   parse_ats_response lim (Some []) =
     Inr \<lparr>atsScore = StrVal ''N/A'', suggestions = [''Could not get a response from AI.'']\<rparr>"
  by (simp add: parse_ats_response_def)

text \<open>
  Claim C2: for every input, \<open>None\<close> or a string, the parser returns a result whose list
  of suggestions has at least one element.
\<close>

theorem parse_suggestions_nonempty:
  "\<exists>r. parse_ats_response lim gemini_output = Inr r \<and> 1 \<le> length (suggestions r)"
proof (cases "gemini_output = None \<or> gemini_output = Some []")
  case True
  then show ?thesis by (auto simp: parse_ats_response_def)
next
  case False
  then obtain reply where reply: "gemini_output = Some reply" "reply \<noteq> []" by auto
  from parse_some_ok[OF reply(2)] obtain st r where
    "score_ok lim (fst st)" "parse_ats_response lim (Some reply) = Inr r" "finish lim st = Inr r"
    by blast
  with finish_ok[of lim st] reply(1) have "parse_ats_response lim gemini_output = Inr r \<and> suggestions r \<noteq> []"
    by auto
  then show ?thesis by (cases "suggestions r") auto
qed

lemma parse_score_ok:
  assumes "parse_ats_response lim gemini_output = Inr r"
  shows "score_ok lim (atsScore r)"
proof (cases "gemini_output = None \<or> gemini_output = Some []")
  case True
  with assms show ?thesis by (auto simp: parse_ats_response_def score_ok_def)
next
  case False
  then obtain reply where reply: "gemini_output = Some reply" "reply \<noteq> []" by auto
  from parse_some_ok[OF reply(2)] obtain st r' where
    a: "score_ok lim (fst st)" "parse_ats_response lim (Some reply) = Inr r'" "finish lim st = Inr r'"
    by blast
  with finish_ok[OF a(1)] assms reply(1) show ?thesis by auto
qed

text \<open>
  Claim C7: for a reply (a string that is not empty) on which the loop ends with the list
  of suggestions empty: the score the loop ends with is \<open>"N/A"\<close> or an integer; when it
  is an integer the parser returns it with the single keyword filler; when it is
  \<open>"N/A"\<close> the parser returns \<open>"N/A"\<close> with the single could-not-parse filler; and the
  two fillers are different strings.
\<close>

theorem parse_fillers:
  assumes "reply \<noteq> []"
    and "parse_lines lim (split_nl reply) (StrVal ''N/A'', []) = Inr (score, [])"
  shows "(score = StrVal ''N/A'' \<or> (\<exists>n. score = IntVal n)) \<and>
         (\<forall>n. score = IntVal n \<longrightarrow>
            parse_ats_response lim (Some reply) =
              Inr \<lparr>atsScore = IntVal n, suggestions = [no_suggestions_filler]\<rparr>) \<and>
         (score = StrVal ''N/A'' \<longrightarrow>
            parse_ats_response lim (Some reply) =
              Inr \<lparr>atsScore = StrVal ''N/A'', suggestions = [could_not_parse_filler]\<rparr>) \<and>
         no_suggestions_filler \<noteq> could_not_parse_filler"
proof -
  from parse_lines_init_ok[of lim "split_nl reply"] assms(2) have ok: "score_ok lim score" by simp
  then have ok': "score_ok lim (fst (score, []::string list))" by simp
  from finish_ok[OF ok'] obtain r where
    r: "finish lim (score, []) = Inr r" "atsScore r = score"
       "suggestions r = [if score = StrVal ''N/A'' then could_not_parse_filler else no_suggestions_filler]"
    by auto
  have p: "parse_ats_response lim (Some reply) = Inr r"
    using assms r(1) by (simp add: parse_ats_response_def)
  have req: "r = \<lparr>atsScore = atsScore r, suggestions = suggestions r\<rparr>" by simp
  have 1: "score = StrVal ''N/A'' \<or> (\<exists>n. score = IntVal n)"
    using ok by (cases score) (auto simp: score_ok_def)
  have 2: "\<forall>n. score = IntVal n \<longrightarrow>
            parse_ats_response lim (Some reply) =
              Inr \<lparr>atsScore = IntVal n, suggestions = [no_suggestions_filler]\<rparr>"
    using p r(2,3) req by auto
  have 3: "score = StrVal ''N/A'' \<longrightarrow>
            parse_ats_response lim (Some reply) =
              Inr \<lparr>atsScore = StrVal ''N/A'', suggestions = [could_not_parse_filler]\<rparr>"
    using p r(2,3) req by auto
  have 4: "no_suggestions_filler \<noteq> could_not_parse_filler"
    by (simp add: no_suggestions_filler_def could_not_parse_filler_def)
  from 1 2 3 4 show ?thesis by blast
qed

theorem parse_fillers_witness:
  "''ATS Score: 82/100'' \<noteq> [] \<and>
   parse_lines 4300 (split_nl ''ATS Score: 82/100'') (StrVal ''N/A'', []) = Inr (IntVal 82, []) \<and>
   parse_ats_response 4300 (Some ''ATS Score: 82/100'') =
     Inr \<lparr>atsScore = IntVal 82, suggestions = [no_suggestions_filler]\<rparr> \<and>
   ''Suggestions:'' \<noteq> [] \<and>
   parse_lines 4300 (split_nl ''Suggestions:'') (StrVal ''N/A'', []) = Inr (StrVal ''N/A'', []) \<and>
   parse_ats_response 4300 (Some ''Suggestions:'') =
     Inr \<lparr>atsScore = StrVal ''N/A'', suggestions = [could_not_parse_filler]\<rparr>"
proof -
  have a: "''ATS Score: 82/100'' \<noteq> []" by simp
  have b: "parse_lines 4300 (split_nl ''ATS Score: 82/100'') (StrVal ''N/A'', []) = Inr (IntVal 82, [])"
    by code_simp
  have c: "''Suggestions:'' \<noteq> []" by simp
  have d: "parse_lines 4300 (split_nl ''Suggestions:'') (StrVal ''N/A'', []) = Inr (StrVal ''N/A'', [])"
    by code_simp
  show ?thesis using a b c d parse_fillers [OF a b] parse_fillers [OF c d] by simp
qed

section \<open>The score the loop ends with\<close>

lemma parse_line_score:
  assumes "parse_line lim l st = Inr st'"
  shows "fst st' = (case line_score lim l of Some n \<Rightarrow> IntVal n | None \<Rightarrow> fst st)"
proof (cases "re_search_score l")
  case None
  with assms show ?thesis
    by (cases st) (auto simp: parse_line_def line_score_def split: if_splits)
next
  case (Some g)
  show ?thesis
  proof (cases "py_int lim g")
    case (Inl e)
    then have "py_int lim g = Inl ValueError" using py_int_Inl[OF Inl] by simp
    with Some assms show ?thesis
      by (cases st) (auto simp: parse_line_def line_score_def)
  next
    case (Inr n)
    with Some assms show ?thesis
      by (cases st) (auto simp: parse_line_def line_score_def)
  qed
qed

lemma map_filter_Cons:
  "List.map_filter f (x # xs) = (case f x of None \<Rightarrow> List.map_filter f xs | Some y \<Rightarrow> y # List.map_filter f xs)"
  by (simp add: List.map_filter_def split: option.splits)

lemma parse_lines_score:
  "parse_lines lim ls st = Inr st' \<Longrightarrow>
     fst st' = (let ns = List.map_filter (line_score lim) ls
                in if ns = [] then fst st else IntVal (last ns))"
proof (induction ls arbitrary: st)
  case Nil
  then show ?case by (simp add: List.map_filter_def)
next
  case (Cons l ls)
  from Cons.prems obtain st1 where
    st1: "parse_line lim l st = Inr st1" "parse_lines lim ls st1 = Inr st'"
    by (auto split: sum.splits)
  from Cons.IH[OF st1(2)] parse_line_score[OF st1(1)] show ?case
    by (auto simp: map_filter_Cons Let_def split: option.splits)
qed

text \<open>
  Claim C1, as the code has it: every matching line whose number \<open>int\<close> accepts assigns
  \<open>score\<close> again, so for every reply that is not empty the score returned is the integer
  of the last such line (and \<open>"N/A"\<close> when there is none); the integers of the earlier
  matching lines are overwritten. With no digit limit, or numbers within it, \<open>int\<close>
  accepts the number of every matching line.
\<close>

theorem parse_last_score_wins:
  assumes "reply \<noteq> []"
  shows "\<exists>r. parse_ats_response lim (Some reply) = Inr r \<and>
             atsScore r =
               (let ns = List.map_filter (line_score lim) (split_nl reply)
                in if ns = [] then StrVal ''N/A'' else IntVal (last ns))"
proof -
  from parse_some_ok[OF assms] obtain st r where
    a: "parse_lines lim (split_nl reply) (StrVal ''N/A'', []) = Inr st" "score_ok lim (fst st)"
       "parse_ats_response lim (Some reply) = Inr r" "finish lim st = Inr r"
    by blast
  from finish_ok[OF a(2)] a(4) have "atsScore r = fst st" by auto
  with parse_lines_score[OF a(1)] a(3) show ?thesis by (simp add: Let_def)
qed

text \<open>
  On a reply with two matching lines, 82 first and 90 second, the score returned is 90.
\<close>

theorem parse_first_score_counterexample:
  "parse_ats_response 4300 (Some (''ATS Score: 82/100'' @ [CHR 0x0A] @ ''ATS Score: 90/100'')) =
     Inr \<lparr>atsScore = IntVal 90, suggestions = [no_suggestions_filler]\<rparr> \<and>
   map re_search_score (split_nl (''ATS Score: 82/100'' @ [CHR 0x0A] @ ''ATS Score: 90/100'')) =
     [Some ''82'', Some ''90'']"
  by code_simp

theorem parse_last_score_wins_witness:
  "''ATS Score: 82/100'' @ [CHR 0x0A] @ ''ATS Score: 90/100'' \<noteq> [] \<and>
   List.map_filter (line_score 4300) (split_nl (''ATS Score: 82/100'' @ [CHR 0x0A] @ ''ATS Score: 90/100'')) = [82, 90] \<and>
   (\<exists>r. parse_ats_response 4300 (Some (''ATS Score: 82/100'' @ [CHR 0x0A] @ ''ATS Score: 90/100'')) = Inr r \<and>
        atsScore r = IntVal 90)"
proof -
  have a: "''ATS Score: 82/100'' @ [CHR 0x0A] @ ''ATS Score: 90/100'' \<noteq> []" by simp
  have b: "List.map_filter (line_score 4300) (split_nl (''ATS Score: 82/100'' @ [CHR 0x0A] @ ''ATS Score: 90/100'')) = [82, 90]"
    by code_simp
  from parse_last_score_wins [OF a, of 4300] b a show ?thesis by (simp only: Let_def) simp
qed

section \<open>The suggestions the loop collects\<close>

lemma parse_line_suggs:
  assumes "parse_line lim l (sc, sg) = Inr (sc', sg')"
  shows "(is_bullet l \<and> sg' = sg @ [bullet_text l]) \<or>
         (\<not> is_bullet l \<and> (sg' = sg \<or> (sg = [] \<and> strip l \<noteq> [] \<and> sg' = [strip l])))"
proof (cases "re_search_score l")
  case None
  with assms show ?thesis
    by (auto simp: parse_line_def is_bullet_def bullet_text_def split: if_splits)
next
  case (Some g)
  show ?thesis
  proof (cases "py_int lim g")
    case (Inl e)
    then have "py_int lim g = Inl ValueError" using py_int_Inl[OF Inl] by simp
    with Some assms show ?thesis by (auto simp: parse_line_def is_bullet_def)
  next
    case (Inr n)
    with Some assms show ?thesis by (auto simp: parse_line_def is_bullet_def)
  qed
qed

lemma parse_lines_suggs_started:
  "parse_lines lim ls (sc, sg) = Inr (sc', sg') \<Longrightarrow> sg \<noteq> [] \<Longrightarrow>
     sg' = sg @ map bullet_text (filter is_bullet ls)"
proof (induction ls arbitrary: sc sg)
  case Nil
  then show ?case by simp
next
  case (Cons l ls)
  from Cons.prems(1) obtain sc1 sg1 where
    st1: "parse_line lim l (sc, sg) = Inr (sc1, sg1)" "parse_lines lim ls (sc1, sg1) = Inr (sc', sg')"
    by (auto split: sum.splits)
  from parse_line_suggs[OF st1(1)] Cons.prems(2)
  have c: "(is_bullet l \<and> sg1 = sg @ [bullet_text l]) \<or> (\<not> is_bullet l \<and> sg1 = sg)" by auto
  then have "sg1 \<noteq> []" using Cons.prems(2) by auto
  from Cons.IH[OF st1(2) this] c show ?case by auto
qed

lemma parse_lines_suggs:
  "parse_lines lim ls (sc, []) = Inr (sc', sg') \<Longrightarrow>
     \<exists>pre. sg' = pre @ map bullet_text (filter is_bullet ls) \<and>
           (pre = [] \<or> (\<exists>l \<in> set ls. strip l \<noteq> [] \<and> pre = [strip l]))"
proof (induction ls arbitrary: sc)
  case Nil
  then show ?case by simp
next
  case (Cons l ls)
  from Cons.prems(1) obtain sc1 sg1 where
    st1: "parse_line lim l (sc, []) = Inr (sc1, sg1)" "parse_lines lim ls (sc1, sg1) = Inr (sc', sg')"
    by (auto split: sum.splits)
  from parse_line_suggs[OF st1(1)]
  consider "is_bullet l" "sg1 = [bullet_text l]"
    | "\<not> is_bullet l" "sg1 = []"
    | "\<not> is_bullet l" "strip l \<noteq> []" "sg1 = [strip l]"
    by auto
  then show ?case
  proof cases
    case 1
    with parse_lines_suggs_started[OF st1(2)] have "sg' = [] @ map bullet_text (filter is_bullet (l # ls))"
      by simp
    then show ?thesis by blast
  next
    case 2
    with Cons.IH[of sc1] st1(2) obtain pre where
      "sg' = pre @ map bullet_text (filter is_bullet ls)"
      "pre = [] \<or> (\<exists>l \<in> set ls. strip l \<noteq> [] \<and> pre = [strip l])" by auto
    with 2 show ?thesis by auto
  next
    case 3
    with parse_lines_suggs_started[OF st1(2)] have "sg' = [strip l] @ map bullet_text (filter is_bullet (l # ls))"
      by simp
    with 3 show ?thesis by (intro exI[of _ "[strip l]"]) auto
  qed
qed

lemma strip_last: "strip s \<noteq> [] \<Longrightarrow> \<not> isspace (last (strip s))"
proof -
  assume a: "strip s \<noteq> []"
  let ?t = "dropWhile isspace (rev (dropWhile isspace s))"
  from a have t: "?t \<noteq> []" by (simp add: strip_def)
  then have "\<not> isspace (hd ?t)" by (rule hd_dropWhile)
  moreover have "last (strip s) = hd ?t" using t by (simp add: strip_def last_rev)
  ultimately show ?thesis by simp
qed

lemma strip_eq_Nil: "strip t = [] \<longleftrightarrow> (\<forall>c \<in> set t. isspace c)"
proof
  assume "strip t = []"
  then have "dropWhile isspace (rev (dropWhile isspace t)) = []" by (simp add: strip_def)
  then have "\<forall>c \<in> set (dropWhile isspace t). isspace c" by (simp add: dropWhile_eq_Nil_conv)
  moreover have "dropWhile isspace t = [] \<or> \<not> isspace (hd (dropWhile isspace t))"
    using hd_dropWhile[of isspace t] by blast
  ultimately have "dropWhile isspace t = []" by (cases "dropWhile isspace t") auto
  then show "\<forall>c \<in> set t. isspace c" by (simp add: dropWhile_eq_Nil_conv)
next
  assume "\<forall>c \<in> set t. isspace c"
  then have d: "dropWhile isspace t = []" by (simp add: dropWhile_eq_Nil_conv)
  show "strip t = []" unfolding strip_def d by simp
qed

lemma bullet_text_empty:
  "bullet_text l = [] \<longleftrightarrow> (\<forall>c \<in> set (strip l). c = CHR ''-'' \<or> c = CHR '' '')"
proof -
  let ?P = "\<lambda>c. c \<in> set ''- ''"
  let ?t = "dropWhile ?P (strip l)"
  have P: "\<And>c. ?P c \<longleftrightarrow> c = CHR ''-'' \<or> c = CHR '' ''" by auto
  have "bullet_text l = [] \<longleftrightarrow> (\<forall>c \<in> set ?t. isspace c)"
    by (simp add: bullet_text_def lstrip_def strip_eq_Nil)
  also have "\<dots> \<longleftrightarrow> ?t = []"
  proof
    assume all: "\<forall>c \<in> set ?t. isspace c"
    show "?t = []"
    proof (rule ccontr)
      assume ne: "?t \<noteq> []"
      then have sne: "strip l \<noteq> []" by auto
      obtain pre where "strip l = pre @ ?t" by (metis takeWhile_dropWhile_id)
      with ne have "last (strip l) = last ?t" by (metis last_appendR)
      moreover from ne have "last ?t \<in> set ?t" by (rule last_in_set)
      ultimately have "isspace (last (strip l))" using all by simp
      with strip_last[OF sne] show False by simp
    qed
  next
    assume e: "?t = []"
    show "\<forall>c \<in> set ?t. isspace c" unfolding e by simp
  qed
  also have "\<dots> \<longleftrightarrow> (\<forall>c \<in> set (strip l). ?P c)" by (simp add: dropWhile_eq_Nil_conv)
  finally show ?thesis by (simp only: P)
qed

lemma filler_nonempty: "no_suggestions_filler \<noteq> [] \<and> could_not_parse_filler \<noteq> []"
  by (simp add: no_suggestions_filler_def could_not_parse_filler_def)

lemma parse_line_suggs_eq:
  assumes "parse_line lim l (sc, sg) = Inr (sc', sg')"
  shows "sg' = (if is_bullet l then sg @ [bullet_text l]
                else if sg = [] \<and> is_fallback l then [strip l] else sg)"
proof (cases "re_search_score l")
  case None
  with assms show ?thesis
    by (auto simp: parse_line_def is_bullet_def bullet_text_def is_fallback_def split: if_splits)
next
  case (Some g)
  show ?thesis
  proof (cases "py_int lim g")
    case (Inl e)
    then have "py_int lim g = Inl ValueError" using py_int_Inl[OF Inl] by simp
    with Some assms show ?thesis by (auto simp: parse_line_def is_bullet_def is_fallback_def)
  next
    case (Inr n)
    with Some assms show ?thesis by (auto simp: parse_line_def is_bullet_def is_fallback_def)
  qed
qed

lemma parse_lines_collected:
  "parse_lines lim ls (sc, []) = Inr (sc', sg') \<Longrightarrow>
     sg' = (case filter is_fallback (takeWhile (\<lambda>l. \<not> is_bullet l) ls) of
              [] \<Rightarrow> []
            | l # _ \<Rightarrow> [strip l]) @
           map bullet_text (filter is_bullet ls)"
proof (induction ls arbitrary: sc)
  case Nil
  then show ?case by simp
next
  case (Cons l ls)
  from Cons.prems(1) obtain sc1 sg1 where
    st1: "parse_line lim l (sc, []) = Inr (sc1, sg1)" "parse_lines lim ls (sc1, sg1) = Inr (sc', sg')"
    by (auto split: sum.splits)
  from parse_line_suggs_eq[OF st1(1)]
  have sg1: "sg1 = (if is_bullet l then [bullet_text l] else if is_fallback l then [strip l] else [])"
    by simp
  show ?case
  proof (cases "is_bullet l")
    case True
    with sg1 have "sg1 = [bullet_text l]" by simp
    with parse_lines_suggs_started[OF st1(2)] have "sg' = [bullet_text l] @ map bullet_text (filter is_bullet ls)"
      by simp
    with True show ?thesis by simp
  next
    case nb: False
    show ?thesis
    proof (cases "is_fallback l")
      case True
      with sg1 nb have "sg1 = [strip l]" by simp
      with parse_lines_suggs_started[OF st1(2)] have "sg' = [strip l] @ map bullet_text (filter is_bullet ls)"
        by simp
      with True nb show ?thesis by simp
    next
      case False
      with sg1 nb have "sg1 = []" by simp
      with Cons.IH[of sc1] st1(2) False nb show ?thesis by simp
    qed
  qed
qed

text \<open>
  Claim C6, as the code has it: for every reply that is not empty the suggestions are
  exactly these. If a fallback line (line 144's) stands before every bullet line, the
  first such line, trimmed, comes first and the suggestions of the bullet lines follow
  in the order of the lines; otherwise the list is the suggestions of the bullet lines
  in the order of the lines, or the one filler when there is no bullet line either. The
  trimmed fallback line and the fillers are not empty; the suggestion of a bullet line
  is the empty string exactly when the trimmed line holds nothing but hyphens and spaces.
\<close>

theorem parse_suggestions_shape:
  assumes "reply \<noteq> []"
  shows "\<exists>r. parse_ats_response lim (Some reply) = Inr r \<and>
           suggestions r =
             (case filter is_fallback (takeWhile (\<lambda>l. \<not> is_bullet l) (split_nl reply)) of
                l # _ \<Rightarrow> strip l # map bullet_text (filter is_bullet (split_nl reply))
              | [] \<Rightarrow>
                  if filter is_bullet (split_nl reply) = []
                  then [if atsScore r = StrVal ''N/A'' then could_not_parse_filler
                        else no_suggestions_filler]
                  else map bullet_text (filter is_bullet (split_nl reply))) \<and>
           (\<forall>l \<in> set (split_nl reply). is_fallback l \<longrightarrow> strip l \<noteq> []) \<and>
           (\<forall>l \<in> set (split_nl reply). is_bullet l \<longrightarrow>
              (bullet_text l = [] \<longleftrightarrow> (\<forall>c \<in> set (strip l). c = CHR ''-'' \<or> c = CHR '' ''))) \<and>
           could_not_parse_filler \<noteq> [] \<and> no_suggestions_filler \<noteq> []"
proof -
  let ?ls = "split_nl reply"
  let ?B = "map bullet_text (filter is_bullet ?ls)"
  let ?fb = "filter is_fallback (takeWhile (\<lambda>l. \<not> is_bullet l) ?ls)"
  from parse_some_ok[OF assms] obtain st r where
    a: "parse_lines lim ?ls (StrVal ''N/A'', []) = Inr st" "score_ok lim (fst st)"
       "parse_ats_response lim (Some reply) = Inr r" "finish lim st = Inr r"
    by blast
  obtain sc sg where st: "st = (sc, sg)" by (cases st)
  from parse_lines_collected[of lim ?ls "StrVal ''N/A''" sc sg] a(1) st
  have sg: "sg = (case ?fb of [] \<Rightarrow> [] | l # _ \<Rightarrow> [strip l]) @ ?B" by simp
  from finish_ok[OF a(2)] a(4) st have fin:
    "atsScore r = sc"
    "sg \<noteq> [] \<longrightarrow> suggestions r = sg"
    "sg = [] \<longrightarrow> suggestions r =
        [if sc = StrVal ''N/A'' then could_not_parse_filler else no_suggestions_filler]"
    by auto
  have shape: "suggestions r =
             (case ?fb of
                l # _ \<Rightarrow> strip l # ?B
              | [] \<Rightarrow>
                  if filter is_bullet ?ls = []
                  then [if atsScore r = StrVal ''N/A'' then could_not_parse_filler
                        else no_suggestions_filler]
                  else ?B)"
  proof (cases ?fb)
    case Nil
    with sg have sgB: "sg = ?B" by simp
    show ?thesis
    proof (cases "filter is_bullet ?ls = []")
      case True
      with sgB have "sg = []" by simp
      with fin(1,3) Nil True show ?thesis by simp
    next
      case False
      with sgB have "sg \<noteq> []" by simp
      with fin(2) sgB Nil False show ?thesis by simp
    qed
  next
    case (Cons l rest)
    with sg have "sg = strip l # ?B" by simp
    with fin(2) Cons show ?thesis by simp
  qed
  have fb: "\<forall>l \<in> set ?ls. is_fallback l \<longrightarrow> strip l \<noteq> []"
    by (simp add: is_fallback_def)
  have bt: "\<forall>l \<in> set ?ls. is_bullet l \<longrightarrow>
              (bullet_text l = [] \<longleftrightarrow> (\<forall>c \<in> set (strip l). c = CHR ''-'' \<or> c = CHR '' ''))"
    by (simp add: bullet_text_empty)
  from a(3) shape fb bt filler_nonempty show ?thesis by blast
qed

text \<open>
  A last line that is a lone hyphen gives the empty string as a suggestion.
\<close>

theorem parse_empty_suggestion_counterexample:
  "parse_ats_response 4300
     (Some (''ATS Score: 70/100'' @ [CHR 0x0A] @ ''- Add keywords'' @ [CHR 0x0A] @ ''-'')) =
     Inr \<lparr>atsScore = IntVal 70, suggestions = [''Add keywords'', []]\<rparr>"
  by code_simp

theorem parse_suggestions_shape_witness:
  "''Great resume'' @ [CHR 0x0A] @ ''- Add keywords'' @ [CHR 0x0A] @ ''-'' \<noteq> [] \<and>
   parse_ats_response 4300
     (Some (''Great resume'' @ [CHR 0x0A] @ ''- Add keywords'' @ [CHR 0x0A] @ ''-'')) =
     Inr \<lparr>atsScore = StrVal ''N/A'', suggestions = [''Great resume'', ''Add keywords'', []]\<rparr>"
proof -
  let ?reply = "''Great resume'' @ [CHR 0x0A] @ ''- Add keywords'' @ [CHR 0x0A] @ ''-''"
  have a: "?reply \<noteq> []" by simp
  have fbk: "filter is_fallback (takeWhile (\<lambda>l. \<not> is_bullet l) (split_nl ?reply)) = [''Great resume'']"
    by code_simp
  have bs: "map bullet_text (filter is_bullet (split_nl ?reply)) = [''Add keywords'', []]"
    by code_simp
  have sp: "strip ''Great resume'' = ''Great resume''" by code_simp
  from parse_suggestions_shape [OF a, of 4300] obtain r where
    r: "parse_ats_response 4300 (Some ?reply) = Inr r"
       "suggestions r =
             (case filter is_fallback (takeWhile (\<lambda>l. \<not> is_bullet l) (split_nl ?reply)) of
                l # _ \<Rightarrow> strip l # map bullet_text (filter is_bullet (split_nl ?reply))
              | [] \<Rightarrow>
                  if filter is_bullet (split_nl ?reply) = []
                  then [if atsScore r = StrVal ''N/A'' then could_not_parse_filler
                        else no_suggestions_filler]
                  else map bullet_text (filter is_bullet (split_nl ?reply)))"
    by blast
  from r(2) have s: "suggestions r = [''Great resume'', ''Add keywords'', []]"
    unfolding fbk bs using sp by simp
  have "parse_ats_response 4300 (Some ?reply) =
          Inr \<lparr>atsScore = StrVal ''N/A'', suggestions = [''Great resume'', ''Add keywords'', []]\<rparr>"
    by code_simp
  with r(1) s have "r = \<lparr>atsScore = StrVal ''N/A'', suggestions = [''Great resume'', ''Add keywords'', []]\<rparr>"
    by simp
  with r(1) a show ?thesis by simp
qed

section \<open>The parser is total and leaves the world alone\<close>

lemma parse_lines_io_eq: "parse_lines_io lim ls st w = (parse_lines lim ls st, w)"
  by (induction ls arbitrary: st) (auto split: sum.splits)

lemma parse_ats_response_io_eq:
  "parse_ats_response_io lim gemini_output w = (parse_ats_response lim gemini_output, w)"
  by (auto simp: parse_ats_response_io_def parse_ats_response_def parse_lines_io_eq
      split: option.splits sum.splits)

text \<open>
  Claim C9, as the code has it: the parser is total on strings. For every string and
  every log of events it returns a result, raises no exception (\<open>int\<close> raises nothing but
  the \<open>ValueError\<close> that line 136 catches, and \<open>str\<close> is applied to a score that \<open>int\<close>
  has accepted) and hands the log back as it was: no call, no sleep. The result has a
  score that is \<open>"N/A"\<close> or an integer that is not negative, and a list of suggestions
  that is not empty; a suggestion is the empty string only when it comes from a bullet
  line that holds nothing but hyphens and spaces, so the result is not always the
  well-formed one of the data model, whose suggestions are never empty strings.
\<close>

theorem parse_total:
  "\<exists>r. parse_ats_response_io lim (Some reply) w = (Inr r, w) \<and>
        parse_ats_response lim (Some reply) = Inr r \<and>
        (atsScore r = StrVal ''N/A'' \<or> (\<exists>n. atsScore r = IntVal n \<and> 0 \<le> n)) \<and>
        suggestions r \<noteq> [] \<and>
        (\<forall>s \<in> set (suggestions r). s = [] \<longrightarrow>
           (\<exists>l \<in> set (split_nl reply). is_bullet l \<and> bullet_text l = [] \<and>
              (\<forall>c \<in> set (strip l). c = CHR ''-'' \<or> c = CHR '' '')))"
proof (cases "reply = []")
  case True
  then show ?thesis by (simp add: parse_ats_response_io_eq parse_ats_response_def)
next
  case False
  let ?ls = "split_nl reply"
  let ?B = "map bullet_text (filter is_bullet ?ls)"
  from parse_some_ok[OF False] obtain st r where
    a: "parse_lines lim ?ls (StrVal ''N/A'', []) = Inr st" "score_ok lim (fst st)"
       "parse_ats_response lim (Some reply) = Inr r" "finish lim st = Inr r"
    by blast
  obtain sc sg where st: "st = (sc, sg)" by (cases st)
  from finish_ok[OF a(2)] a(4) st have fin:
    "atsScore r = sc" "suggestions r \<noteq> []"
    "sg \<noteq> [] \<longrightarrow> suggestions r = sg"
    "sg = [] \<longrightarrow> suggestions r =
        [if sc = StrVal ''N/A'' then could_not_parse_filler else no_suggestions_filler]"
    by auto
  from a(2) st fin(1) have sc: "atsScore r = StrVal ''N/A'' \<or> (\<exists>n. atsScore r = IntVal n \<and> 0 \<le> n)"
    by (cases sc) (auto simp: score_ok_def)
  from parse_lines_suggs[of lim ?ls "StrVal ''N/A''" sc sg] a(1) st
  obtain pre where pre: "sg = pre @ ?B"
    "pre = [] \<or> (\<exists>l \<in> set ?ls. strip l \<noteq> [] \<and> pre = [strip l])"
    by auto
  have empties: "\<forall>s \<in> set (suggestions r). s = [] \<longrightarrow>
           (\<exists>l \<in> set ?ls. is_bullet l \<and> bullet_text l = [] \<and>
              (\<forall>c \<in> set (strip l). c = CHR ''-'' \<or> c = CHR '' ''))"
  proof (intro ballI impI)
    fix s assume s: "s \<in> set (suggestions r)" "s = []"
    have "sg \<noteq> []"
    proof
      assume "sg = []"
      with fin(4) s filler_nonempty show False by (auto split: if_splits)
    qed
    with fin(3) s(1) pre(1) have "s \<in> set pre \<or> s \<in> set ?B" by auto
    moreover from pre(2) s(2) have "s \<notin> set pre" by auto
    ultimately have "s \<in> set ?B" by simp
    then obtain l where l: "l \<in> set ?ls" "is_bullet l" "s = bullet_text l" by auto
    with s(2) have "bullet_text l = []" by simp
    with l bullet_text_empty[of l] show "\<exists>l \<in> set ?ls. is_bullet l \<and> bullet_text l = [] \<and>
              (\<forall>c \<in> set (strip l). c = CHR ''-'' \<or> c = CHR '' '')" by blast
  qed
  have "parse_ats_response_io lim (Some reply) w = (Inr r, w)"
    using a(3) by (simp add: parse_ats_response_io_eq)
  with a(3) sc fin(2) empties show ?thesis by blast
qed

text \<open>
  On the reply that is a lone hyphen the one suggestion returned is the empty string.
\<close>

theorem parse_wellformed_counterexample:
  "parse_ats_response 4300 (Some ''-'') =
     Inr \<lparr>atsScore = StrVal ''N/A'', suggestions = [[]]\<rparr>"
  by code_simp

theorem parse_total_witness:
  "parse_ats_response_io 4300 (Some (''ATS Score: 82/100'' @ [CHR 0x0A] @ ''-''))
     [Call ''p'', Sleep 1, Call ''p''] =
     (Inr \<lparr>atsScore = IntVal 82, suggestions = [[]]\<rparr>, [Call ''p'', Sleep 1, Call ''p'']) \<and>
   [] \<in> set (suggestions \<lparr>atsScore = IntVal 82, suggestions = [[]]\<rparr>) \<and>
   (\<exists>l \<in> set (split_nl (''ATS Score: 82/100'' @ [CHR 0x0A] @ ''-'')).
      is_bullet l \<and> bullet_text l = [])"
proof -
  let ?reply = "''ATS Score: 82/100'' @ [CHR 0x0A] @ ''-''"
  let ?w = "[Call ''p'', Sleep 1, Call ''p'']"
  from parse_total [of 4300 ?reply ?w] obtain r where
    r: "parse_ats_response_io 4300 (Some ?reply) ?w = (Inr r, ?w)"
       "parse_ats_response 4300 (Some ?reply) = Inr r"
       "\<forall>s \<in> set (suggestions r). s = [] \<longrightarrow>
           (\<exists>l \<in> set (split_nl ?reply). is_bullet l \<and> bullet_text l = [] \<and>
              (\<forall>c \<in> set (strip l). c = CHR ''-'' \<or> c = CHR '' ''))"
    by blast
  have "parse_ats_response 4300 (Some ?reply) = Inr \<lparr>atsScore = IntVal 82, suggestions = [[]]\<rparr>"
    by code_simp
  with r(2) have req: "r = \<lparr>atsScore = IntVal 82, suggestions = [[]]\<rparr>" by simp
  with r(3) have "\<exists>l \<in> set (split_nl ?reply). is_bullet l \<and> bullet_text l = []" by auto
  with r(1) req show ?thesis by simp
qed

section \<open>The score is the number the line holds\<close>

lemma digit_val_char_of: "d < 10 \<Longrightarrow> digit_val (char_of (48 + (d::nat))) = int d"
  by (simp add: digit_val_def)

lemma decimal_value_digits_of:
  "foldl (\<lambda>a c. 10 * a + digit_val c) 0 (digits_of n) = int n"
proof (induction n rule: digits_of.induct)
  case (1 n)
  show ?case
  proof (cases "n < 10")
    case True
    then show ?thesis by (subst digits_of.simps) (simp add: digit_val_char_of)
  next
    case False
    with 1 have ih: "foldl (\<lambda>a c. 10 * a + digit_val c) 0 (digits_of (n div 10)) = int (n div 10)"
      by simp
    have d: "digit_val (char_of (48 + n mod 10)) = int (n mod 10)"
      by (rule digit_val_char_of) simp
    have "foldl (\<lambda>a c. 10 * a + digit_val c) 0 (digits_of n) =
            10 * int (n div 10) + int (n mod 10)"
      using False ih d by (subst digits_of.simps) simp
    also have "\<dots> = int n" by (simp add: zdiv_int zmod_int)
    finally show ?thesis .
  qed
qed

lemma digits_of_nonempty: "digits_of n \<noteq> []"
  by (subst digits_of.simps) simp

lemma isdecimal_not_space: "isdecimal c \<Longrightarrow> \<not> isspace c"
  by (auto simp: isdecimal_def isspace_def Let_def)

lemma isdecimal_not_newline: "isdecimal c \<Longrightarrow> c \<noteq> CHR 0x0A"
  by (auto simp: isdecimal_def Let_def)

lemma split_nl_single: "CHR 0x0A \<notin> set s \<Longrightarrow> split_nl s = [s]"
  by (induction s) auto

lemma re_search_score_label:
  assumes "ds \<noteq> []" and "list_all isdecimal ds"
  shows "re_search_score (''ATS Score: '' @ ds) = Some ds"
proof -
  obtain c cs where ds: "ds = c # cs" using assms(1) by (cases ds) auto
  with assms(2) have "\<not> isspace c" by (simp add: isdecimal_not_space)
  then have dw: "dropWhile isspace ('' '' @ ds) = ds" using ds by (simp add: isspace_def)
  have tw: "takeWhile isdecimal ds = ds" using assms(2) by (simp add: list_all_iff)
  have dr: "drop 10 (''ATS Score: '' @ ds) = '' '' @ ds" by simp
  have sw: "startswith (''ATS Score: '' @ ds) ''ATS Score:''" by simp
  have "score_at (''ATS Score: '' @ ds) = Some ds"
    unfolding score_at_def dr dw tw Let_def using sw assms(1) by (simp only: if_True if_False)
  then show ?thesis by simp
qed

lemma parse_label_digits:
  assumes "lim = 0 \<or> length (digits_of n) \<le> lim"
  shows "parse_ats_response lim (Some (''ATS Score: '' @ digits_of n)) =
           Inr \<lparr>atsScore = IntVal (int n), suggestions = [no_suggestions_filler]\<rparr>"
proof -
  let ?ds = "digits_of n"
  let ?line = "''ATS Score: '' @ ?ds"
  have dec: "list_all isdecimal ?ds" by (rule digits_of_decimal)
  have ne: "?ds \<noteq> []" by (rule digits_of_nonempty)
  have "CHR 0x0A \<notin> set ?ds" using dec by (auto simp: list_all_iff dest: isdecimal_not_newline)
  then have "CHR 0x0A \<notin> set ?line" by simp
  then have sp: "split_nl ?line = [?line]" by (rule split_nl_single)
  have m: "re_search_score ?line = Some ?ds" by (rule re_search_score_label[OF ne dec])
  have i: "py_int lim ?ds = Inr (int n)"
    using assms ne dec by (auto simp: py_int_def decimal_value_digits_of)
  have pl: "parse_line lim ?line (StrVal ''N/A'', []) = Inr (IntVal (int n), [])"
    using m i by (simp add: parse_line_def)
  have ps: "py_str lim (IntVal (int n)) = Inr ?ds"
    using assms by (auto simp: py_str_def Let_def)
  have "\<not> contains ''N/A'' ?ds" using ps by (rule py_str_IntVal_no_NA)
  then have f: "finish lim (IntVal (int n), []) =
           Inr \<lparr>atsScore = IntVal (int n), suggestions = [no_suggestions_filler]\<rparr>"
    using ps by (simp add: finish_def)
  have "?line \<noteq> []" by simp
  then show ?thesis using sp pl f by (simp add: parse_ats_response_def)
qed

lemma line_score_value:
  "line_score lim l = Some n \<Longrightarrow>
     \<exists>g. re_search_score l = Some g \<and> n = foldl (\<lambda>a c. 10 * a + digit_val c) 0 g"
  by (auto simp: line_score_def py_int_def split: option.splits sum.splits if_splits)

lemma map_filter_last:
  "List.map_filter f xs \<noteq> [] \<Longrightarrow> \<exists>x \<in> set xs. f x = Some (last (List.map_filter f xs))"
proof (induction xs)
  case Nil
  then show ?case by (simp add: List.map_filter_def)
next
  case (Cons x xs)
  show ?case
  proof (cases "List.map_filter f xs = []")
    case True
    with Cons.prems show ?thesis by (auto simp: map_filter_Cons split: option.splits)
  next
    case False
    from Cons.IH[OF False] False show ?thesis by (auto simp: map_filter_Cons split: option.splits)
  qed
qed

lemma parse_score_value:
  assumes "parse_ats_response lim (Some reply) = Inr r" and "atsScore r = IntVal n"
  shows "\<exists>l \<in> set (split_nl reply). \<exists>g. re_search_score l = Some g \<and>
           n = foldl (\<lambda>a c. 10 * a + digit_val c) 0 g"
proof -
  have ne: "reply \<noteq> []" using assms by (auto simp: parse_ats_response_def)
  from parse_some_ok[OF ne] obtain st r' where
    a: "parse_lines lim (split_nl reply) (StrVal ''N/A'', []) = Inr st" "score_ok lim (fst st)"
       "parse_ats_response lim (Some reply) = Inr r'" "finish lim st = Inr r'"
    by blast
  from finish_ok[OF a(2)] a(4) have "atsScore r' = fst st" by auto
  with a(3) assms have sc: "fst st = IntVal n" by simp
  let ?ns = "List.map_filter (line_score lim) (split_nl reply)"
  from parse_lines_score[OF a(1)] sc have ns: "?ns \<noteq> []" "n = last ?ns"
    by (auto simp: Let_def split: if_splits)
  from map_filter_last[OF ns(1)] ns(2) obtain l where
    "l \<in> set (split_nl reply)" "line_score lim l = Some n" by auto
  with line_score_value show ?thesis by blast
qed

lemma digits_of_bound: "length (digits_of n) \<le> k \<Longrightarrow> n < 10 ^ k"
proof (induction n arbitrary: k rule: digits_of.induct)
  case (1 n)
  show ?case
  proof (cases "n < 10")
    case True
    from 1(2) have "0 < k" using digits_of_nonempty[of n] by (cases k) auto
    then have "(10::nat) \<le> 10 ^ k" by (cases k) auto
    with True show ?thesis by simp
  next
    case False
    have "digits_of n = digits_of (n div 10) @ [char_of (48 + n mod 10)]"
      using False by (subst digits_of.simps) simp
    with 1(2) have "Suc (length (digits_of (n div 10))) \<le> k" by simp
    then obtain j where k: "k = Suc j" and j: "length (digits_of (n div 10)) \<le> j"
      by (cases k) auto
    from 1(1)[OF False j] have "n div 10 < 10 ^ j" .
    then have "n < 10 * 10 ^ j" by (simp add: div_less_iff_less_mult mult.commute)
    with k show ?thesis by simp
  qed
qed

lemma parse_score_below_limit:
  assumes "0 < lim" and "parse_ats_response lim gemini_output = Inr r" and "atsScore r = IntVal n"
  shows "n < 10 ^ lim"
proof -
  from parse_score_ok[OF assms(2)] assms(1,3) have
    "0 \<le> n" "length (digits_of (nat n)) \<le> lim" by (auto simp: score_ok_def)
  from digits_of_bound[OF this(2)] this(1) have "int (nat n) < int (10 ^ lim)" by simp
  with \<open>0 \<le> n\<close> show ?thesis by simp
qed

lemma parse_label_too_long:
  assumes "ds \<noteq> []" and "list_all isdecimal ds" and "0 < lim" and "lim < length ds"
  shows "parse_ats_response lim (Some (''ATS Score: '' @ ds)) =
           Inr \<lparr>atsScore = StrVal ''N/A'', suggestions = [could_not_parse_filler]\<rparr>"
proof -
  let ?line = "''ATS Score: '' @ ds"
  have "CHR 0x0A \<notin> set ds" using assms(2) by (auto simp: list_all_iff dest: isdecimal_not_newline)
  then have "CHR 0x0A \<notin> set ?line" by simp
  then have sp: "split_nl ?line = [?line]" by (rule split_nl_single)
  have m: "re_search_score ?line = Some ds" by (rule re_search_score_label[OF assms(1,2)])
  have i: "py_int lim ds = Inl ValueError" using assms by (simp add: py_int_def)
  have pl: "parse_line lim ?line (StrVal ''N/A'', []) = Inr (StrVal ''N/A'', [])"
    using m i by (simp add: parse_line_def)
  have c: "contains ''N/A'' ''N/A''" by simp
  have f: "finish lim (StrVal ''N/A'', []) =
           Inr \<lparr>atsScore = StrVal ''N/A'', suggestions = [could_not_parse_filler]\<rparr>"
    using c by (simp add: finish_def py_str_def)
  have "?line \<noteq> []" by simp
  then show ?thesis using sp pl f by (simp add: parse_ats_response_def)
qed

text \<open>
  Claim C10, as the code has it: whenever the parser returns an integer score, the
  integer is not negative and it is the decimal value of the digits that the pattern
  matched on a line of the reply. The parser applies no bound of its own: for every
  natural number \<open>n\<close> that \<open>int\<close> accepts (no digit limit, or no more digits than the
  limit), the reply \<open>ATS Score: n\<close> gives the score \<open>n\<close>, so \<open>ATS Score: 150\<close> gives 150.
  But under a digit limit \<open>lim\<close> of the interpreter \<open>int\<close> raises \<open>ValueError\<close> on a longer
  number, line 136 catches it and the score stays as it was: the scores returned are
  below \<open>10 ^ lim\<close>.
\<close>

theorem parse_score_nonnegative_unbounded:
  "(\<forall>lim gemini_output r n.
      parse_ats_response lim gemini_output = Inr r \<longrightarrow> atsScore r = IntVal n \<longrightarrow> 0 \<le> n) \<and>
   (\<forall>lim reply r n.
      parse_ats_response lim (Some reply) = Inr r \<longrightarrow> atsScore r = IntVal n \<longrightarrow>
      (\<exists>l \<in> set (split_nl reply). \<exists>g. re_search_score l = Some g \<and>
           n = foldl (\<lambda>a c. 10 * a + digit_val c) 0 g)) \<and>
   (\<forall>lim n. lim = 0 \<or> length (digits_of n) \<le> lim \<longrightarrow>
      parse_ats_response lim (Some (''ATS Score: '' @ digits_of n)) =
        Inr \<lparr>atsScore = IntVal (int n), suggestions = [no_suggestions_filler]\<rparr>) \<and>
   parse_ats_response 4300 (Some ''ATS Score: 150'') =
     Inr \<lparr>atsScore = IntVal 150, suggestions = [no_suggestions_filler]\<rparr> \<and>
   parse_ats_response 0 (Some ''ATS Score: 150'') =
     Inr \<lparr>atsScore = IntVal 150, suggestions = [no_suggestions_filler]\<rparr> \<and>
   (\<forall>lim gemini_output r n.
      0 < lim \<longrightarrow> parse_ats_response lim gemini_output = Inr r \<longrightarrow> atsScore r = IntVal n \<longrightarrow>
      n < 10 ^ lim)"
proof (intro conjI allI impI)
  fix lim gemini_output r n
  assume "parse_ats_response lim gemini_output = Inr r" "atsScore r = IntVal n"
  with parse_score_ok[of lim gemini_output r] show "0 \<le> n" by (simp add: score_ok_def)
next
  fix lim reply r n
  assume "parse_ats_response lim (Some reply) = Inr r" "atsScore r = IntVal n"
  then show "\<exists>l \<in> set (split_nl reply). \<exists>g. re_search_score l = Some g \<and>
           n = foldl (\<lambda>a c. 10 * a + digit_val c) 0 g" by (rule parse_score_value)
next
  fix lim :: nat and n :: nat
  assume "lim = 0 \<or> length (digits_of n) \<le> lim"
  then show "parse_ats_response lim (Some (''ATS Score: '' @ digits_of n)) =
        Inr \<lparr>atsScore = IntVal (int n), suggestions = [no_suggestions_filler]\<rparr>"
    by (rule parse_label_digits)
next
  show "parse_ats_response 4300 (Some ''ATS Score: 150'') =
     Inr \<lparr>atsScore = IntVal 150, suggestions = [no_suggestions_filler]\<rparr>" by code_simp
next
  show "parse_ats_response 0 (Some ''ATS Score: 150'') =
     Inr \<lparr>atsScore = IntVal 150, suggestions = [no_suggestions_filler]\<rparr>" by code_simp
next
  fix lim :: nat and gemini_output r n
  assume "0 < lim" "parse_ats_response lim gemini_output = Inr r" "atsScore r = IntVal n"
  then show "n < 10 ^ lim" by (rule parse_score_below_limit)
qed

text \<open>
  Under the digit limit 4300 a score line with 4301 digits leaves the score at \<open>"N/A"\<close>:
  the number on the line is not returned.
\<close>

theorem parse_digit_limit_counterexample:
  "parse_ats_response 4300 (Some (''ATS Score: '' @ replicate 4301 (CHR ''9''))) =
     Inr \<lparr>atsScore = StrVal ''N/A'', suggestions = [could_not_parse_filler]\<rparr>"
proof (rule parse_label_too_long)
  show "replicate 4301 (CHR ''9'') \<noteq> []" by simp
  show "list_all isdecimal (replicate 4301 (CHR ''9''))"
    by (simp add: list_all_iff isdecimal_def)
  show "(0::nat) < 4300" by simp
  show "4300 < length (replicate 4301 (CHR ''9''))" by simp
qed

theorem parse_score_nonnegative_unbounded_witness:
  "length (digits_of 1503) \<le> 4300 \<and>
   parse_ats_response 4300 (Some (''ATS Score: '' @ digits_of 1503)) =
     Inr \<lparr>atsScore = IntVal 1503, suggestions = [no_suggestions_filler]\<rparr> \<and>
   digits_of 1503 = ''1503'' \<and> (0::int) \<le> 1503"
proof -
  have d: "digits_of 1503 = ''1503''" by code_simp
  have l: "length (digits_of 1503) \<le> 4300" unfolding d by simp
  then have h: "4300 = (0::nat) \<or> length (digits_of 1503) \<le> 4300" by (rule disjI2)
  have p: "parse_ats_response 4300 (Some (''ATS Score: '' @ digits_of 1503)) =
        Inr \<lparr>atsScore = IntVal (int 1503), suggestions = [no_suggestions_filler]\<rparr>"
    using parse_score_nonnegative_unbounded [THEN conjunct2, THEN conjunct2, THEN conjunct1,
      rule_format, of 4300 1503, OF h] .
  have n: "0 \<le> int 1503"
    using parse_score_nonnegative_unbounded [THEN conjunct1, rule_format, OF p]
    by simp
  have i: "int 1503 = 1503" by simp
  from l p d n show ?thesis unfolding i by (intro conjI)
qed

section \<open>The retry loop when every attempt fails\<close>

lemma calls_append: "calls (w @ v) = calls w + calls v"
  by (induction w rule: calls.induct) auto

lemma sleeps_append: "sleeps (w @ v) = sleeps w @ sleeps v"
  by (induction w rule: sleeps.induct) auto

lemma calls_rounds:
  "calls (concat (map (\<lambda>i. [Call p, Sleep (f i)]) is)) = length is"
  by (induction "is") auto

lemma sleeps_rounds:
  "sleeps (concat (map (\<lambda>i. [Call p, Sleep (f i)]) is)) = map f is"
  by (induction "is") auto

lemma py_sleep_ok:
  "0 \<le> secs \<Longrightarrow> secs \<le> sleep_max \<Longrightarrow> py_sleep secs w = (Inr (), w @ [Sleep secs])"
  by (simp add: py_sleep_def sleep_max_def)

lemma retry_loop_all_fail:
  assumes fail: "\<forall>k. tr prompt k = RequestException"
    and rng: "\<forall>i. i + 1 < n \<longrightarrow> 0 \<le> initial_delay * 2 ^ i \<and> initial_delay * 2 ^ i \<le> sleep_max"
  shows "k \<le> n \<Longrightarrow> int n = max_retries \<Longrightarrow> calls w = k \<Longrightarrow>
     retry_loop tr prompt max_retries initial_delay [k..<n] w =
       (Inr None,
        w @ concat (map (\<lambda>i. [Call prompt, Sleep (initial_delay * 2 ^ i)]) [k..<n - 1]) @
            (if k < n then [Call prompt] else []))"
proof (induction "n - k" arbitrary: k w)
  case 0
  then have "k = n" by simp
  with 0 show ?case by simp
next
  case (Suc m)
  then have kn: "k < n" by simp
  then have upt: "[k..<n] = k # [Suc k..<n]" by (simp add: upt_conv_Cons)
  show ?case
  proof (cases "int k < max_retries - 1")
    case True
    then have k1: "Suc k < n" using Suc.prems(2) by simp
    let ?w2 = "w @ [Call prompt, Sleep (initial_delay * 2 ^ k)]"
    have "0 \<le> initial_delay * 2 ^ k \<and> initial_delay * 2 ^ k \<le> sleep_max"
      using rng k1 by simp
    then have sl: "py_sleep (initial_delay * 2 ^ k) (w @ [Call prompt]) = (Inr (), ?w2)"
      by (simp add: py_sleep_ok)
    have step: "retry_loop tr prompt max_retries initial_delay [k..<n] w =
                retry_loop tr prompt max_retries initial_delay [Suc k..<n] ?w2"
      using fail True sl by (simp add: upt Let_def)
    have m: "m = n - Suc k" using Suc.hyps(2) by simp
    have c2: "calls ?w2 = Suc k" using Suc.prems(3) by (simp add: calls_append)
    have "retry_loop tr prompt max_retries initial_delay [Suc k..<n] ?w2 =
       (Inr None,
        ?w2 @ concat (map (\<lambda>i. [Call prompt, Sleep (initial_delay * 2 ^ i)]) [Suc k..<n - 1]) @
            (if Suc k < n then [Call prompt] else []))"
      using Suc.hyps(1)[OF m _ Suc.prems(2) c2] k1 by simp
    moreover have "[k..<n - 1] = k # [Suc k..<n - 1]" using k1 by (simp add: upt_conv_Cons)
    ultimately show ?thesis using step k1 kn by simp
  next
    case False
    then have nk: "n = Suc k" using kn Suc.prems(2) by linarith
    then show ?thesis using fail False by (simp add: Let_def)
  qed
qed

lemma sum_list_delays:
  "sum_list (map (\<lambda>i. d * 2 ^ i) [0..<m]) = (d::int) * (\<Sum>i<m. 2 ^ i)"
  by (induction m) (simp_all add: algebra_simps)

lemma delays_in_range:
  assumes "0 \<le> (d::int)" and "d * 2 ^ (n - 2) \<le> sleep_max"
  shows "\<forall>i. i + 1 < n \<longrightarrow> 0 \<le> d * 2 ^ i \<and> d * 2 ^ i \<le> sleep_max"
proof (intro allI impI)
  fix i :: nat
  assume i: "i + 1 < n"
  then have "i \<le> n - 2" by simp
  then have "(2::int) ^ i \<le> 2 ^ (n - 2)" by (simp add: power_increasing)
  then have "d * 2 ^ i \<le> d * 2 ^ (n - 2)" using assms(1) by (simp add: mult_left_mono)
  with assms show "0 \<le> d * 2 ^ i \<and> d * 2 ^ i \<le> sleep_max" by simp
qed

text \<open>
  Claim C4, as the code has it: when every attempt raises a \<open>RequestException\<close>, the
  number of retries is not negative and, if there are two attempts or more, the initial
  delay is not negative and the longest delay \<open>initial_delay * 2 ^ (max_retries - 2)\<close> is
  one \<open>time.sleep\<close> accepts, the client returns \<open>None\<close> and its log is a call and a sleep
  of \<open>initial_delay * 2 ^ i\<close> for each \<open>i\<close> below \<open>max_retries - 1\<close>, in this order, and
  then one last call: exactly \<open>max_retries\<close> calls, a sleep between two attempts and none
  after the last, and delays that sum to
  \<open>initial_delay * (2^0 + ... + 2^(max_retries - 2))\<close>.
\<close>

theorem generate_all_fail:
  assumes "\<forall>k. tr prompt k = RequestException"
    and "0 \<le> max_retries"
    and "max_retries \<le> 1 \<or>
         (0 \<le> initial_delay \<and> initial_delay * 2 ^ (nat max_retries - 2) \<le> sleep_max)"
  shows "\<exists>w. call_gemini_api_with_retry tr prompt max_retries initial_delay = (Inr None, w) \<and>
           w = concat (map (\<lambda>i. [Call prompt, Sleep (initial_delay * 2 ^ i)])
                        [0..<nat max_retries - 1]) @
               (if 0 < max_retries then [Call prompt] else []) \<and>
           int (calls w) = max_retries \<and>
           sleeps w = map (\<lambda>i. initial_delay * 2 ^ i) [0..<nat max_retries - 1] \<and>
           sum_list (sleeps w) = initial_delay * (\<Sum>i<nat max_retries - 1. 2 ^ i) \<and>
           (if 0 < max_retries then last w = Call prompt else w = [])"
proof -
  let ?n = "nat max_retries"
  let ?w = "concat (map (\<lambda>i. [Call prompt, Sleep (initial_delay * 2 ^ i)]) [0..<?n - 1]) @
               (if 0 < max_retries then [Call prompt] else [])"
  have n: "int ?n = max_retries" using assms(2) by simp
  have rng: "\<forall>i. i + 1 < ?n \<longrightarrow> 0 \<le> initial_delay * 2 ^ i \<and> initial_delay * 2 ^ i \<le> sleep_max"
  proof (cases "max_retries \<le> 1")
    case True
    then have "?n \<le> 1" by simp
    then show ?thesis by auto
  next
    case False
    with assms(3) show ?thesis using delays_in_range[of initial_delay ?n] by blast
  qed
  have "retry_loop tr prompt max_retries initial_delay [0..<?n] [] =
          (Inr None,
           [] @ concat (map (\<lambda>i. [Call prompt, Sleep (initial_delay * 2 ^ i)]) [0..<?n - 1]) @
               (if 0 < ?n then [Call prompt] else []))"
    using retry_loop_all_fail[where tr = tr and prompt = prompt and k = 0 and n = ?n
        and w = "[]" and initial_delay = initial_delay and max_retries = max_retries]
      assms(1) rng n
    by simp
  then have run: "call_gemini_api_with_retry tr prompt max_retries initial_delay = (Inr None, ?w)"
    by (simp add: call_gemini_api_with_retry_def)
  have c: "int (calls ?w) = max_retries"
  proof (cases "0 < max_retries")
    case True
    then have "calls ?w = (?n - 1) + 1" by (simp add: calls_append calls_rounds)
    with True show ?thesis by simp
  next
    case False
    with assms(2) have "max_retries = 0" by simp
    then show ?thesis by simp
  qed
  have s: "sleeps ?w = map (\<lambda>i. initial_delay * 2 ^ i) [0..<?n - 1]"
    by (simp add: sleeps_append sleeps_rounds)
  have t: "sum_list (sleeps ?w) = initial_delay * (\<Sum>i<?n - 1. 2 ^ i)"
    unfolding s by (rule sum_list_delays)
  have l: "if 0 < max_retries then last ?w = Call prompt else ?w = []"
    using assms(2) by simp
  from run c s t l show ?thesis by blast
qed

text \<open>
  With two attempts and an initial delay of \<open>10^10\<close> seconds the first sleep raises
  \<open>OverflowError\<close>: the client makes one call, not two, and returns nothing.
\<close>

theorem generate_overflow_counterexample:
  "call_gemini_api_with_retry (\<lambda>p k. RequestException) ''p'' 2 10000000000 =
     (Inl OverflowError, [Call ''p''])"
  by code_simp

theorem generate_all_fail_witness:
  "(\<forall>k. (\<lambda>p k. RequestException) ''p'' k = RequestException) \<and> (0::int) \<le> 5 \<and>
   (0::int) \<le> 1 \<and> (1::int) * 2 ^ (nat 5 - 2) \<le> sleep_max \<and>
   call_gemini_api_with_retry (\<lambda>p k. RequestException) ''p'' 5 1 =
     (Inr None,
      [Call ''p'', Sleep 1, Call ''p'', Sleep 2, Call ''p'', Sleep 4, Call ''p'', Sleep 8,
       Call ''p''])"
proof -
  have a: "\<forall>k. (\<lambda>p k. RequestException) ''p'' k = RequestException" by simp
  have b: "(0::int) \<le> 5" by simp
  have c: "(0::int) \<le> 1 \<and> (1::int) * 2 ^ (nat 5 - 2) \<le> sleep_max" by code_simp
  then have c': "(5::int) \<le> 1 \<or> ((0::int) \<le> 1 \<and> (1::int) * 2 ^ (nat 5 - 2) \<le> sleep_max)"
    by blast
  from generate_all_fail [OF a b c'] obtain w where
    w: "call_gemini_api_with_retry (\<lambda>p k. RequestException) ''p'' 5 1 = (Inr None, w)"
       "w = concat (map (\<lambda>i. [Call ''p'', Sleep (1 * 2 ^ i)]) [0..<nat 5 - 1]) @
               (if (0::int) < 5 then [Call ''p''] else [])"
    by blast
  have "[0..<nat 5 - 1] = [0, 1, 2, 3]" by code_simp
  with w(2) have "w = [Call ''p'', Sleep 1, Call ''p'', Sleep 2, Call ''p'', Sleep 4, Call ''p'', Sleep 8,
       Call ''p'']" by simp
  with w(1) a b c show ?thesis by simp
qed

section \<open>A response ends the loop\<close>

text \<open>
  When the attempts before number \<open>k\<close> fail and attempt \<open>k\<close> gives a response, the log
  is the \<open>k\<close> failed calls, each followed by its sleep, and the call that was answered;
  the outcome is that of lines 102 to 107 on the body: no further call and no sleep
  follow a response.
\<close>

lemma retry_loop_response:
  assumes fail: "\<forall>j<k. tr prompt j = RequestException"
    and resp: "tr prompt k = Response result"
    and k: "int k < max_retries"
    and rng: "\<forall>i<k. 0 \<le> initial_delay * 2 ^ i \<and> initial_delay * 2 ^ i \<le> sleep_max"
  shows "j \<le> k \<Longrightarrow> calls w = j \<Longrightarrow>
     retry_loop tr prompt max_retries initial_delay [j..<nat max_retries] w =
       (extract_text result,
        w @ concat (map (\<lambda>i. [Call prompt, Sleep (initial_delay * 2 ^ i)]) [j..<k]) @
            [Call prompt])"
proof (induction "k - j" arbitrary: j w)
  case 0
  then have jk: "j = k" by simp
  have "[k..<nat max_retries] = k # [Suc k..<nat max_retries]"
    using k by (simp add: upt_conv_Cons)
  with jk 0 resp show ?case by (simp add: Let_def)
next
  case (Suc m)
  then have jk: "j < k" by simp
  then have upt: "[j..<nat max_retries] = j # [Suc j..<nat max_retries]"
    using k by (simp add: upt_conv_Cons)
  have lt: "int j < max_retries - 1" using jk k by simp
  let ?w2 = "w @ [Call prompt, Sleep (initial_delay * 2 ^ j)]"
  have "0 \<le> initial_delay * 2 ^ j \<and> initial_delay * 2 ^ j \<le> sleep_max" using rng jk by simp
  then have sl: "py_sleep (initial_delay * 2 ^ j) (w @ [Call prompt]) = (Inr (), ?w2)"
    by (simp add: py_sleep_ok)
  have fj: "tr prompt j = RequestException" using fail jk by simp
  have step: "retry_loop tr prompt max_retries initial_delay [j..<nat max_retries] w =
              retry_loop tr prompt max_retries initial_delay [Suc j..<nat max_retries] ?w2"
    using fj lt Suc.prems(2) sl by (simp add: upt Let_def)
  have m: "m = k - Suc j" using Suc.hyps(2) by simp
  have c2: "calls ?w2 = Suc j" using Suc.prems(2) by (simp add: calls_append)
  have "retry_loop tr prompt max_retries initial_delay [Suc j..<nat max_retries] ?w2 =
       (extract_text result,
        ?w2 @ concat (map (\<lambda>i. [Call prompt, Sleep (initial_delay * 2 ^ i)]) [Suc j..<k]) @
            [Call prompt])"
    using Suc.hyps(1)[OF m _ c2] jk by simp
  moreover have "[j..<k] = j # [Suc j..<k]" using jk by (simp add: upt_conv_Cons)
  ultimately show ?case using step by simp
qed

lemma generate_response:
  assumes "\<forall>j<k. tr prompt j = RequestException"
    and "tr prompt k = Response result"
    and "int k < max_retries"
    and "\<forall>i<k. 0 \<le> initial_delay * 2 ^ i \<and> initial_delay * 2 ^ i \<le> sleep_max"
  shows "call_gemini_api_with_retry tr prompt max_retries initial_delay =
           (extract_text result,
            concat (map (\<lambda>i. [Call prompt, Sleep (initial_delay * 2 ^ i)]) [0..<k]) @
            [Call prompt])"
  using retry_loop_response[where tr = tr and prompt = prompt and k = k and result = result
      and max_retries = max_retries and initial_delay = initial_delay and j = 0
      and w = "[]"] assms
  by (simp add: call_gemini_api_with_retry_def)

lemma generate_first_response:
  assumes "tr prompt 0 = Response result" and "0 < max_retries"
  shows "call_gemini_api_with_retry tr prompt max_retries initial_delay =
           (extract_text result, [Call prompt])"
  using generate_response[where k = 0 and tr = tr and prompt = prompt and result = result
      and max_retries = max_retries and initial_delay = initial_delay] assms
  by simp

lemma extract_text_no_candidates:
  "map_of kvs ''candidates'' = None \<Longrightarrow> extract_text (JObj kvs) = Inr None"
  by (simp add: extract_text_def bindE_def)

text \<open>
  Claim C5 says that a response whose body lacks the text at
  \<open>candidates[0].content.parts[0].text\<close> makes the client return \<open>None\<close> at once. On the
  body \<open>{"candidates": [null]}\<close> the client makes one call and does not sleep, but
  \<open>result["candidates"][0].get("content")\<close> calls \<open>get\<close> on \<open>None\<close>: the client raises
  \<open>AttributeError\<close> and returns nothing.
\<close>

theorem generate_malformed_payload_raises:
  "call_gemini_api_with_retry (\<lambda>p k. Response (JObj [(''candidates'', JArr [JNull])])) ''p'' 5 1 =
     (Inl AttributeError, [Call ''p'']) \<and>
   calls [Call ''p''] = 1 \<and> sleeps [Call ''p''] = []"
  by code_simp

section \<open>The prompt holds its inputs and the two markers\<close>

lemma contains_mid: "contains sub (a @ sub @ b)"
  using contains_iff by blast

lemma contains_append_left: "contains sub s \<Longrightarrow> contains sub (a @ s)"
proof -
  assume "contains sub s"
  then obtain x y where "s = x @ sub @ y" using contains_iff by blast
  then have "a @ s = (a @ x) @ sub @ y" by simp
  then show ?thesis using contains_iff by blast
qed

lemma prompt_tail_markers:
  "contains ''ATS Score:'' prompt_after_resume_text \<and>
   contains ''Suggestions:'' prompt_after_resume_text"
  by code_simp

text \<open>
  Claim C8: for every job type and every resume text (empty or not), the prompt holds
  both strings as they are, and the literal texts \<open>ATS Score:\<close> and \<open>Suggestions:\<close>.
\<close>

theorem prompt_contains_inputs_and_markers:
  "contains job_type (ats_prompt job_type resume_text) \<and>
   contains resume_text (ats_prompt job_type resume_text) \<and>
   contains ''ATS Score:'' (ats_prompt job_type resume_text) \<and>
   contains ''Suggestions:'' (ats_prompt job_type resume_text)"
proof (intro conjI)
  show "contains job_type (ats_prompt job_type resume_text)"
    unfolding ats_prompt_def by (rule contains_mid)
  have "contains resume_text
          ((prompt_before_job_type @ job_type @ prompt_before_resume_text) @ resume_text @
           prompt_after_resume_text)"
    by (rule contains_mid)
  then show "contains resume_text (ats_prompt job_type resume_text)"
    by (simp add: ats_prompt_def)
  have tail: "ats_prompt job_type resume_text =
      (prompt_before_job_type @ job_type @ prompt_before_resume_text @ resume_text) @
      prompt_after_resume_text"
    by (simp add: ats_prompt_def)
  show "contains ''ATS Score:'' (ats_prompt job_type resume_text)"
    unfolding tail using prompt_tail_markers by (intro contains_append_left) simp
  show "contains ''Suggestions:'' (ats_prompt job_type resume_text)"
    unfolding tail using prompt_tail_markers by (intro contains_append_left) simp
qed

end
